theory Spec2Isabelle
  imports Complex_Main "HOL-Library.Word" "HOL-Library.AList"
begin

section \<open>Sentinel: storage-media integrity verifier\<close>

text \<open>
  A shallow embedding of \<^verbatim>\<open>sentinel/core.py\<close> and \<^verbatim>\<open>sentinel/sweep.py\<close>.
  Python integers are \<open>int\<close>, byte strings are lists of 8-bit words, dictionaries are
  association lists in insertion order, and every operating-system call is a function
  on an explicit \<open>world\<close>.
\<close>

subsection \<open>Constants of \<^verbatim>\<open>core.py\<close>\<close>

definition SAFETY_MARGIN_BYTES :: int where
  "SAFETY_MARGIN_BYTES = 100 * 1024 * 1024"

definition MAX_FILE_BYTES :: int where
  "MAX_FILE_BYTES = 2 * 1024 * 1024 * 1024"

definition WRITE_CHUNK_BYTES :: int where
  "WRITE_CHUNK_BYTES = 64 * 1024 * 1024"

subsection \<open>Batch planning\<close>

text \<open>
  The loop of \<^verbatim>\<open>quick_check\<close> (core.py 56-60) and \<^verbatim>\<open>free_space_sweep\<close>
  (sweep.py 196-200):
  \<^verbatim>\<open>
    batch_sizes = []
    remaining = size_bytes
    while remaining > 0:
        batch_sizes.append(min(remaining, MAX_FILE_BYTES))
        remaining -= batch_sizes[-1]
  \<close>
  The cap is a parameter \<open>M\<close> here; the source passes \<open>MAX_FILE_BYTES\<close>. With a
  cap that is not positive the loop of the source never ends, which is the value
  \<open>None\<close>.
\<close>

partial_function (option) plan_batches :: "int \<Rightarrow> int \<Rightarrow> int list \<Rightarrow> int list option" where
  "plan_batches M remaining batch_sizes =
     (if remaining > 0
      then plan_batches M (remaining - min remaining M) (batch_sizes @ [min remaining M])
      else Some batch_sizes)"

text \<open>The sequence the loop builds, in closed form.\<close>

definition batch_list :: "int \<Rightarrow> int \<Rightarrow> int list" where
  "batch_list M N =
     replicate (nat (N div M)) M @ (if N mod M = 0 then [] else [N mod M])"

subsection \<open>Python helpers\<close>

text \<open>\<^verbatim>\<open>str(n)\<close> and the format \<^verbatim>\<open>{n:,}\<close> of an integer.\<close>

definition digit_char :: "nat \<Rightarrow> char" where
  "digit_char d = ''0123456789'' ! d"

function str_nat :: "nat \<Rightarrow> string" where
  "str_nat n = (if n < 10 then [digit_char n] else str_nat (n div 10) @ [digit_char (n mod 10)])"
  by pat_completeness auto
termination
  by (relation "measure id") auto

declare str_nat.simps [simp del]

definition str_int :: "int \<Rightarrow> string" where
  "str_int i = (if i < 0 then ''-'' @ str_nat (nat (- i)) else str_nat (nat i))"

fun commas_rev :: "string \<Rightarrow> string" where
  "commas_rev (a # b # c # d # ds) = a # b # c # CHR '','' # commas_rev (d # ds)"
| "commas_rev ds = ds"

definition fmt_commas :: "int \<Rightarrow> string" where
  "fmt_commas i =
     (if i < 0 then ''-'' else []) @ rev (commas_rev (rev (str_nat (nat \<bar>i\<bar>))))"

definition startswith :: "string \<Rightarrow> string \<Rightarrow> bool" where
  "startswith s pre = (take (length pre) s = pre)"

text \<open>
  \<^verbatim>\<open>round(x)\<close> on a float: the nearest integer, a tie going to the even one. A double
  is a rational number, so the model takes a rational.
\<close>

definition py_round :: "rat \<Rightarrow> int" where
  "py_round x =
     (let f = \<lfloor>x\<rfloor>; d = x - of_int f
      in if d < 1 / 2 then f else if 1 / 2 < d then f + 1
         else if even f then f else f + 1)"

text \<open>
  \<^verbatim>\<open>a / b\<close> on integers: Python returns the double nearest the exact quotient, a tie
  going to the even 53-bit mantissa. \<open>scale_up\<close> and \<open>scale_down\<close> find the power of two
  at or below a positive number (from 1 upwards and below 1), so that this power divided
  by \<open>2^52\<close> is the spacing of the doubles around the number, and \<open>to_double\<close> rounds to
  the nearest multiple of that spacing. The exponent limits of the format are left out:
  the quotients of this program lie between 0 and 100 and are 0 or at least
  \<open>1 / bytes_total\<close>.
\<close>

function scale_up :: "rat \<Rightarrow> rat" where
  "scale_up x = (if x < 2 then 1 else 2 * scale_up (x / 2))"
  by pat_completeness auto
termination
proof (relation "measure (\<lambda>x. nat \<lfloor>x\<rfloor>)")
  show "wf (measure (\<lambda>x::rat. nat \<lfloor>x\<rfloor>))" by simp
next
  fix x :: rat
  assume "\<not> x < 2"
  then have x: "2 \<le> x" by simp
  have a: "x - 1 < of_int \<lfloor>x\<rfloor>" by linarith
  have b: "(1::rat) \<le> of_int \<lfloor>x\<rfloor>" using x by (simp add: le_floor_iff)
  have "x / 2 < of_int \<lfloor>x\<rfloor>" using a b by linarith
  then have "\<lfloor>x / 2\<rfloor> < \<lfloor>x\<rfloor>" by (simp add: floor_less_iff)
  moreover have "0 < \<lfloor>x\<rfloor>" using x by (simp add: less_floor_iff)
  ultimately show "(x / 2, x) \<in> measure (\<lambda>x. nat \<lfloor>x\<rfloor>)" by simp
qed

function scale_down :: "rat \<Rightarrow> rat" where
  "scale_down x = (if x \<le> 0 \<or> 1 \<le> x then 1 else scale_down (2 * x) / 2)"
  by pat_completeness auto
termination
proof (relation "measure (\<lambda>x. nat \<lfloor>1 / x\<rfloor>)")
  show "wf (measure (\<lambda>x::rat. nat \<lfloor>1 / x\<rfloor>))" by simp
next
  fix x :: rat
  assume "\<not> (x \<le> 0 \<or> 1 \<le> x)"
  then have x: "0 < x" "x < 1" by simp_all
  define y where "y = 1 / x"
  have y: "1 < y" using x by (simp add: y_def)
  have e: "1 / (2 * x) = y / 2" by (simp add: y_def)
  have a: "y - 1 < of_int \<lfloor>y\<rfloor>" by linarith
  have b: "(1::rat) \<le> of_int \<lfloor>y\<rfloor>" using y by (simp add: le_floor_iff)
  have "y / 2 < of_int \<lfloor>y\<rfloor>" using a b by linarith
  then have "\<lfloor>y / 2\<rfloor> < \<lfloor>y\<rfloor>" by (simp add: floor_less_iff)
  moreover have "0 < \<lfloor>y\<rfloor>" using y by (simp add: less_floor_iff)
  ultimately show "(2 * x, x) \<in> measure (\<lambda>x. nat \<lfloor>1 / x\<rfloor>)"
    using y by (simp add: y_def mult.commute)
qed

declare scale_up.simps [simp del] scale_down.simps [simp del]

definition to_double :: "rat \<Rightarrow> rat" where
  "to_double x =
     (if x = 0 then 0
      else let u = (if 1 \<le> \<bar>x\<bar> then scale_up \<bar>x\<bar> else scale_down \<bar>x\<bar>) / 2 ^ 52
           in of_int (py_round (x / u)) * u)"

definition py_truediv :: "int \<Rightarrow> int \<Rightarrow> rat" where
  "py_truediv a b = to_double (of_int a / of_int b)"

subsection \<open>The world: drive, host and operating system\<close>

type_synonym byte = "8 word"

type_synonym bytes = "byte list"

type_synonym path = string

text \<open>
  What the operating system does at one call: serve it, raise \<^verbatim>\<open>OSError\<close> with a
  message, or (for a read) return other bytes than the ones stored.
\<close>

datatype fault = NoFault | Fails string | Garbled bytes

text \<open>
  An entry of the drive, keyed by its path relative to the drive root with \<open>/\<close> as
  separator (the form \<^verbatim>\<open>build_manifest\<close> stores; on the drive-letter roots the tool
  is written for, its two \<^verbatim>\<open>replace\<close> calls are inverse to each other).
  \<open>Unreadable\<close> is a regular file whose \<^verbatim>\<open>open\<close> raises.
\<close>

datatype fnode = Regular bytes | Unreadable | Directory

datatype event =
    EvMkdir path | EvOpenW path | EvWrite path nat | EvRead path
  | EvIterdir path | EvUnlink path | EvRmdir path
  | EvWriteMarker | EvSaveManifest string | EvLoadManifest string

text \<open>
  The host file \<^verbatim>\<open>manifests/<letter>.json\<close>, by what reading it as UTF-8 text and
  \<^verbatim>\<open>json.load\<close> make of it: absent, not UTF-8, not JSON, the JSON \<^verbatim>\<open>null\<close>,
  another JSON value that is no object, or an object of strings.
\<close>

datatype manifest_file =
    NoFile | NotUtf8 | NotJson | JsonNull | JsonNonDict | JsonDict "(string \<times> string) list"

text \<open>
  The libraries and the surroundings of a run: \<^verbatim>\<open>hashlib.sha256\<close>,
  \<^verbatim>\<open>random.Random\<close> with \<^verbatim>\<open>randbytes\<close>, \<^verbatim>\<open>strftime\<close>, \<^verbatim>\<open>secrets.token_hex\<close>,
  the fault and the clock advance of the \<open>n\<close>-th operating-system call, and the
  \<^verbatim>\<open>abort_check\<close> callback (its answer at the \<open>n\<close>-th poll).
\<close>

record 'g env =
  sha256_hex :: "bytes \<Rightarrow> string"
  Random :: "int \<Rightarrow> 'g"
  randbytes :: "'g \<Rightarrow> nat \<Rightarrow> bytes \<times> 'g"
  strftime :: "nat \<Rightarrow> string"
  token_hex :: "nat \<Rightarrow> string"
  fault_at :: "nat \<Rightarrow> fault"
  tick :: "nat \<Rightarrow> nat"
  abort_check :: "(nat \<Rightarrow> bool) option"

record world =
  clock :: nat
  steps :: nat
  polls :: nat
  disk_total :: int
  disk_free :: int
  fs :: "(path \<times> fnode) list"
  last_sweep :: "nat option"
  manifests :: "(string \<times> manifest_file) list"
  config_last_sweep_time :: "nat option"
  trace :: "event list"

text \<open>
  \<open>clock\<close> is what \<^verbatim>\<open>datetime.now()\<close> reads; every operating-system call advances it
  by a number that is not negative, so it never goes back.
  \<open>last_sweep\<close> is the datetime held by \<^verbatim>\<open>Sentinel/.last_sweep\<close> on the drive,
  \<open>config_last_sweep_time\<close> the \<^verbatim>\<open>last_sweep_time\<close> of the host configuration,
  \<open>manifests\<close> the host manifest store by file stem.
\<close>

definition os_call :: "'g env \<Rightarrow> event \<Rightarrow> world \<Rightarrow> fault \<times> world" where
  "os_call env ev w =
     (fault_at env (steps w),
      w\<lparr>steps := Suc (steps w), clock := clock w + tick env (steps w),
        trace := trace w @ [ev]\<rparr>)"

definition poll_abort :: "'g env \<Rightarrow> world \<Rightarrow> bool \<times> world" where
  "poll_abort env w =
     (case abort_check env of
        None \<Rightarrow> (False, w)
      | Some f \<Rightarrow> (f (polls w), w\<lparr>polls := Suc (polls w)\<rparr>))"

definition get_drive_usage :: "world \<Rightarrow> int \<times> int" where
  "get_drive_usage w = (disk_total w, disk_free w)"

definition path_exists :: "world \<Rightarrow> path \<Rightarrow> bool" where
  "path_exists w p = (map_of (fs w) p \<noteq> None)"

text \<open>\<^verbatim>\<open>Path.mkdir(parents=True, exist_ok=False)\<close>\<close>

definition mkdir :: "'g env \<Rightarrow> path \<Rightarrow> world \<Rightarrow> string option \<times> world" where
  "mkdir env p w =
     (case os_call env (EvMkdir p) w of
        (Fails e, w1) \<Rightarrow> (Some e, w1)
      | (_, w1) \<Rightarrow>
          if path_exists w1 p then (Some ''File exists'', w1)
          else (None, w1\<lparr>fs := fs w1 @ [(p, Directory)]\<rparr>))"

text \<open>\<^verbatim>\<open>open(file_path, "wb")\<close>\<close>

definition open_wb :: "'g env \<Rightarrow> path \<Rightarrow> world \<Rightarrow> string option \<times> world" where
  "open_wb env p w =
     (case os_call env (EvOpenW p) w of
        (Fails e, w1) \<Rightarrow> (Some e, w1)
      | (_, w1) \<Rightarrow> (None, w1\<lparr>fs := AList.update p (Regular []) (fs w1)\<rparr>))"

text \<open>\<^verbatim>\<open>f.write(chunk)\<close>\<close>

definition write_chunk :: "'g env \<Rightarrow> path \<Rightarrow> bytes \<Rightarrow> world \<Rightarrow> string option \<times> world" where
  "write_chunk env p chunk w =
     (case os_call env (EvWrite p (length chunk)) w of
        (Fails e, w1) \<Rightarrow> (Some e, w1)
      | (_, w1) \<Rightarrow>
          (None, w1\<lparr>fs := AList.update p
             (Regular ((case map_of (fs w1) p of Some (Regular c) \<Rightarrow> c | _ \<Rightarrow> []) @ chunk))
             (fs w1)\<rparr>))"

text \<open>Opening a file and reading it to its end.\<close>

definition read_file :: "'g env \<Rightarrow> path \<Rightarrow> world \<Rightarrow> (string + bytes) \<times> world" where
  "read_file env p w =
     (case os_call env (EvRead p) w of
        (f, w1) \<Rightarrow>
          (case map_of (fs w1) p of
             None \<Rightarrow> (Inl ''No such file or directory'', w1)
           | Some (Regular c) \<Rightarrow>
               (case f of
                  Fails e \<Rightarrow> (Inl e, w1)
                | Garbled g \<Rightarrow> (Inr g, w1)
                | NoFault \<Rightarrow> (Inr c, w1))
           | Some _ \<Rightarrow> (Inl ''Permission denied'', w1)))"

definition iterdir :: "'g env \<Rightarrow> path \<Rightarrow> world \<Rightarrow> (string + path list) \<times> world" where
  "iterdir env p w =
     (case os_call env (EvIterdir p) w of
        (Fails e, w1) \<Rightarrow> (Inl e, w1)
      | (_, w1) \<Rightarrow> (Inr [q \<leftarrow> map fst (fs w1). startswith q (p @ ''/'')], w1))"

definition unlink :: "'g env \<Rightarrow> path \<Rightarrow> world \<Rightarrow> string option \<times> world" where
  "unlink env p w =
     (case os_call env (EvUnlink p) w of
        (Fails e, w1) \<Rightarrow> (Some e, w1)
      | (_, w1) \<Rightarrow> (None, w1\<lparr>fs := AList.delete p (fs w1)\<rparr>))"

definition rmdir :: "'g env \<Rightarrow> path \<Rightarrow> world \<Rightarrow> string option \<times> world" where
  "rmdir env p w =
     (case os_call env (EvRmdir p) w of
        (Fails e, w1) \<Rightarrow> (Some e, w1)
      | (_, w1) \<Rightarrow> (None, w1\<lparr>fs := AList.delete p (fs w1)\<rparr>))"

subsection \<open>Chunked hashing (\<^verbatim>\<open>_hash_file_chunked\<close>)\<close>

text \<open>
  A hasher is the bytes fed to it so far; \<^verbatim>\<open>hexdigest\<close> applies \<open>sha256_hex\<close>.
  The loop reads \<open>chunk_size\<close> bytes at a time until a read returns nothing.
\<close>

function read_loop :: "nat \<Rightarrow> bytes \<Rightarrow> bytes \<Rightarrow> bytes" where
  "read_loop chunk_size hasher rest =
     (if take chunk_size rest = [] then hasher
      else read_loop chunk_size (hasher @ take chunk_size rest) (drop chunk_size rest))"
  by pat_completeness auto
termination
  by (relation "measure (\<lambda>(c, h, r). length r)") auto

declare read_loop.simps [simp del]

definition hash_file_chunked ::
  "'g env \<Rightarrow> path \<Rightarrow> nat \<Rightarrow> world \<Rightarrow> (string + string) \<times> world" where
  "hash_file_chunked env p chunk_size w =
     (case read_file env p w of
        (Inl e, w1) \<Rightarrow> (Inl e, w1)
      | (Inr content, w1) \<Rightarrow> (Inr (sha256_hex env (read_loop chunk_size [] content)), w1))"

subsection \<open>The write-verify cycle of one batch\<close>

text \<open>
  core.py 97-115 and sweep.py 248-266: the generator is seeded with the batch index,
  and the file is written in chunks of at most \<open>WRITE_CHUNK_BYTES\<close>, each chunk fed
  to the hasher before it is written.
\<close>

function write_loop ::
  "'g env \<Rightarrow> path \<Rightarrow> int \<Rightarrow> int \<Rightarrow> 'g \<Rightarrow> bytes \<Rightarrow> world \<Rightarrow> (string + bytes) \<times> world" where
  "write_loop env p fsize written rng hasher w =
     (if written < fsize then
        (case randbytes env rng (nat (min WRITE_CHUNK_BYTES (fsize - written))) of
           (chunk, rng') \<Rightarrow>
             (case write_chunk env p chunk w of
                (Some e, w1) \<Rightarrow> (Inl e, w1)
              | (None, w1) \<Rightarrow>
                  write_loop env p fsize
                    (written + min WRITE_CHUNK_BYTES (fsize - written)) rng' (hasher @ chunk) w1))
      else (Inr hasher, w))"
  by pat_completeness auto
termination
  by (relation "measure (\<lambda>(env, p, fsize, written, rng, hasher, w). nat (fsize - written))")
     (auto simp: WRITE_CHUNK_BYTES_def)

declare write_loop.simps [simp del]

definition write_batch ::
  "'g env \<Rightarrow> path \<Rightarrow> int \<Rightarrow> int \<Rightarrow> world \<Rightarrow> (string + string) \<times> world" where
  "write_batch env file_path batch_i fsize w =
     (case open_wb env file_path w of
        (Some e, w1) \<Rightarrow> (Inl e, w1)
      | (None, w1) \<Rightarrow>
          (case write_loop env file_path fsize 0 (Random env batch_i) [] w1 of
             (Inl e, w2) \<Rightarrow> (Inl e, w2)
           | (Inr hasher, w2) \<Rightarrow> (Inr (sha256_hex env hasher), w2)))"

record batch_record =
  batch :: int
  expected_hash :: string
  read1_hash :: string
  read2_hash :: "string option"
  match :: bool

record abort_info =
  batches_completed :: nat
  batches_total :: nat
  bytes_tested :: int
  bytes_total :: int
  extrapolated_confidence_pct :: int

text \<open>
  The dictionary a check returns. The keys \<^verbatim>\<open>aborted\<close>, \<^verbatim>\<open>batches_completed\<close>,
  ... are present together or not at all: \<open>aborted\<close> is \<open>Some\<close> of them or \<open>None\<close>.
\<close>

record result =
  passed :: bool
  message :: string
  details :: string
  verification_details :: "batch_record list"
  aborted :: "abort_info option"

definition failure :: "string \<Rightarrow> string \<Rightarrow> batch_record list \<Rightarrow> result" where
  "failure msg det vd =
     \<lparr>passed = False, message = msg, details = det, verification_details = vd,
      aborted = None\<rparr>"

definition test_file :: "path \<Rightarrow> int \<Rightarrow> path" where
  "test_file temp_path batch_i = temp_path @ ''/test_'' @ str_int batch_i @ ''.bin''"

text \<open>
  The body of the loop over batches after the abort poll (core.py 88-178, sweep.py
  241-327). \<open>Inl\<close> is the dictionary a \<^verbatim>\<open>return\<close> inside the loop gives,
  \<open>Inr\<close> the extended \<^verbatim>\<open>verification_details\<close> with which the loop goes on.
  \<open>fail_msg\<close> is \<^verbatim>\<open>"Integrity check failed"\<close> or \<^verbatim>\<open>"Free-space sweep failed"\<close>.
\<close>

definition verify_batch ::
  "'g env \<Rightarrow> string \<Rightarrow> path \<Rightarrow> int \<Rightarrow> int \<Rightarrow> batch_record list \<Rightarrow> world
     \<Rightarrow> (result + batch_record list) \<times> world" where
  "verify_batch env fail_msg temp_path batch_i fsize vd w =
     (case write_batch env (test_file temp_path batch_i) batch_i fsize w of
        (Inl e, w1) \<Rightarrow>
          (Inl (failure fail_msg
                  (''Write error (batch '' @ str_int (batch_i + 1) @ ''): '' @ e) vd), w1)
      | (Inr expected, w1) \<Rightarrow>
          (case hash_file_chunked env (test_file temp_path batch_i) (nat WRITE_CHUNK_BYTES) w1 of
             (Inl e, w2) \<Rightarrow>
               (Inl (failure fail_msg
                       (''Read error (batch '' @ str_int (batch_i + 1) @ ''): '' @ e) vd), w2)
           | (Inr h1, w2) \<Rightarrow>
               if h1 \<noteq> expected then
                 (Inl (failure fail_msg
                         (''Hash mismatch on batch '' @ str_int (batch_i + 1) @ '' (first read).'')
                         (vd @ [\<lparr>batch = batch_i + 1, expected_hash = expected,
                                 read1_hash = h1, read2_hash = None, match = False\<rparr>])), w2)
               else
                 (case hash_file_chunked env (test_file temp_path batch_i)
                         (nat WRITE_CHUNK_BYTES) w2 of
                    (Inl e, w3) \<Rightarrow>
                      (Inl (failure fail_msg
                              (''Read error (batch '' @ str_int (batch_i + 1)
                                 @ '', second pass): '' @ e) vd), w3)
                  | (Inr h2, w3) \<Rightarrow>
                      if \<not> (h1 = expected \<and> h2 = expected \<and> h1 = h2) then
                        (Inl (failure fail_msg
                                (''Hash mismatch on batch '' @ str_int (batch_i + 1)
                                   @ '' (second read).'')
                                (vd @ [\<lparr>batch = batch_i + 1, expected_hash = expected,
                                        read1_hash = h1, read2_hash = Some h2,
                                        match = False\<rparr>])), w3)
                      else
                        (Inr (vd @ [\<lparr>batch = batch_i + 1, expected_hash = expected,
                                      read1_hash = h1, read2_hash = Some h2,
                                      match = True\<rparr>]), w3))))"

text \<open>
  The loop over \<^verbatim>\<open>enumerate(batch_sizes)\<close>: the abort poll, then the batch. It
  ends by running out of batches, by an abort, or by a \<^verbatim>\<open>return\<close> of the body.
\<close>

datatype loop_end =
    Finished "batch_record list" | AbortedAt "batch_record list" | Returned result

fun batch_loop ::
  "'g env \<Rightarrow> string \<Rightarrow> path \<Rightarrow> int list \<Rightarrow> int \<Rightarrow> batch_record list \<Rightarrow> world
     \<Rightarrow> loop_end \<times> world" where
  "batch_loop env fail_msg temp_path [] batch_i vd w = (Finished vd, w)"
| "batch_loop env fail_msg temp_path (fsize # rest) batch_i vd w =
     (case poll_abort env w of
        (True, w1) \<Rightarrow> (AbortedAt vd, w1)
      | (False, w1) \<Rightarrow>
          (case verify_batch env fail_msg temp_path batch_i fsize vd w1 of
             (Inl r, w2) \<Rightarrow> (Returned r, w2)
           | (Inr vd', w2) \<Rightarrow> batch_loop env fail_msg temp_path rest (batch_i + 1) vd' w2))"

text \<open>
  The \<^verbatim>\<open>finally\<close> block: unlink what \<^verbatim>\<open>iterdir\<close> lists, remove the directory,
  and swallow the first \<^verbatim>\<open>OSError\<close>.
\<close>

fun unlink_all :: "'g env \<Rightarrow> path list \<Rightarrow> world \<Rightarrow> bool \<times> world" where
  "unlink_all env [] w = (True, w)"
| "unlink_all env (p # ps) w =
     (case unlink env p w of
        (Some e, w1) \<Rightarrow> (False, w1)
      | (None, w1) \<Rightarrow> unlink_all env ps w1)"

definition cleanup :: "'g env \<Rightarrow> path \<Rightarrow> world \<Rightarrow> world" where
  "cleanup env temp_path w =
     (case iterdir env temp_path w of
        (Inl e, w1) \<Rightarrow> w1
      | (Inr entries, w1) \<Rightarrow>
          (case unlink_all env entries w1 of
             (False, w2) \<Rightarrow> w2
           | (True, w2) \<Rightarrow> snd (rmdir env temp_path w2)))"

subsection \<open>The partial result of an aborted check\<close>

definition confidence_pct :: "int \<Rightarrow> int \<Rightarrow> int" where
  "confidence_pct tested size_bytes =
     (if size_bytes \<noteq> 0 then py_round (py_truediv (100 * tested) size_bytes) else 0)"

definition tested_bytes :: "int list \<Rightarrow> nat \<Rightarrow> int" where
  "tested_bytes batch_sizes batches_done = (\<Sum>i \<leftarrow> [0..<batches_done]. batch_sizes ! i)"

definition all_match :: "batch_record list \<Rightarrow> bool" where
  "all_match vd = list_all match vd"

text \<open>core.py 180-200\<close>

definition quick_check_aborted :: "int list \<Rightarrow> int \<Rightarrow> batch_record list \<Rightarrow> result" where
  "quick_check_aborted batch_sizes size_bytes vd =
     \<lparr>passed = all_match vd,
      message = ''Check aborted by user'',
      details = str_int (int (length vd)) @ ''/'' @ str_int (int (length batch_sizes))
        @ '' batches completed, all passed. ''
        @ fmt_commas (tested_bytes batch_sizes (length vd)) @ '' of '' @ fmt_commas size_bytes
        @ '' bytes tested (~''
        @ str_int (confidence_pct (tested_bytes batch_sizes (length vd)) size_bytes)
        @ ''%). Extrapolated: no failures in tested area.'',
      verification_details = vd,
      aborted = Some
        \<lparr>batches_completed = length vd, batches_total = length batch_sizes,
         bytes_tested = tested_bytes batch_sizes (length vd), bytes_total = size_bytes,
         extrapolated_confidence_pct =
           confidence_pct (tested_bytes batch_sizes (length vd)) size_bytes\<rparr>\<rparr>"

text \<open>sweep.py 222-240\<close>

definition free_space_aborted :: "int list \<Rightarrow> int \<Rightarrow> batch_record list \<Rightarrow> result" where
  "free_space_aborted batch_sizes usable_bytes vd =
     \<lparr>passed = all_match vd,
      message = ''Free-space sweep aborted by user'',
      details = str_int (int (length vd)) @ ''/'' @ str_int (int (length batch_sizes))
        @ '' batches completed, all passed. ''
        @ fmt_commas (tested_bytes batch_sizes (length vd)) @ '' of ''
        @ fmt_commas usable_bytes @ '' bytes (~''
        @ str_int (confidence_pct (tested_bytes batch_sizes (length vd)) usable_bytes)
        @ ''%). Extrapolated: no failures in tested area.'',
      verification_details = vd,
      aborted = Some
        \<lparr>batches_completed = length vd, batches_total = length batch_sizes,
         bytes_tested = tested_bytes batch_sizes (length vd), bytes_total = usable_bytes,
         extrapolated_confidence_pct =
           confidence_pct (tested_bytes batch_sizes (length vd)) usable_bytes\<rparr>\<rparr>"

definition success :: "string \<Rightarrow> int list \<Rightarrow> int \<Rightarrow> batch_record list \<Rightarrow> result" where
  "success msg batch_sizes size_bytes vd =
     \<lparr>passed = True, message = msg,
      details = ''Verified '' @ str_int (int (length batch_sizes)) @ '' batches, ''
        @ fmt_commas size_bytes @ '' bytes total.'',
      verification_details = vd, aborted = None\<rparr>"

subsection \<open>\<^verbatim>\<open>quick_check\<close> and \<^verbatim>\<open>free_space_sweep\<close>\<close>

text \<open>
  \<open>target_bytes\<close> stands for \<^verbatim>\<open>int(size_fraction * total_bytes_d)\<close>, a product of
  floating-point numbers that the model takes as given. The progress callback only
  reports and is left out. The result is \<open>None\<close> when the planning loop does not
  return.
\<close>

definition quick_check :: "'g env \<Rightarrow> int \<Rightarrow> world \<Rightarrow> (result \<times> world) option" where
  "quick_check env target_bytes w =
     (case get_drive_usage w of
        (total_bytes_d, free_bytes_d) \<Rightarrow>
          if min target_bytes (max 0 (free_bytes_d - SAFETY_MARGIN_BYTES)) < 1024 then
            Some (failure ''Integrity check failed''
                    ''Not enough free space for check (need at least 100 MB free).'' [], w)
          else
            (case plan_batches MAX_FILE_BYTES
                    (min target_bytes (max 0 (free_bytes_d - SAFETY_MARGIN_BYTES))) [] of
               None \<Rightarrow> None
             | Some batch_sizes \<Rightarrow>
                 (case mkdir env
                         (''SentinelCheck_'' @ strftime env (clock w) @ ''_''
                            @ token_hex env (steps w)) w of
                    (Some e, w1) \<Rightarrow>
                      Some (failure ''Integrity check failed''
                              (''Could not create test directory: '' @ e) [], w1)
                  | (None, w1) \<Rightarrow>
                      (case batch_loop env ''Integrity check failed''
                              (''SentinelCheck_'' @ strftime env (clock w) @ ''_''
                                 @ token_hex env (steps w)) batch_sizes 0 [] w1 of
                         (ending, w2) \<Rightarrow>
                           Some
                             (case ending of
                                Returned r \<Rightarrow> r
                              | AbortedAt vd \<Rightarrow>
                                  quick_check_aborted batch_sizes
                                    (min target_bytes
                                       (max 0 (free_bytes_d - SAFETY_MARGIN_BYTES))) vd
                              | Finished vd \<Rightarrow>
                                  success ''Integrity check passed'' batch_sizes
                                    (min target_bytes
                                       (max 0 (free_bytes_d - SAFETY_MARGIN_BYTES))) vd,
                              cleanup env
                                (''SentinelCheck_'' @ strftime env (clock w) @ ''_''
                                   @ token_hex env (steps w)) w2)))))"

definition free_space_sweep :: "'g env \<Rightarrow> world \<Rightarrow> (result \<times> world) option" where
  "free_space_sweep env w =
     (case get_drive_usage w of
        (total_bytes_d, free_bytes_d) \<Rightarrow>
          if max 0 (free_bytes_d - SAFETY_MARGIN_BYTES) < 1024 then
            Some (failure ''Free-space sweep failed''
                    ''Not enough free space (need at least 100 MB free).'' [], w)
          else
            (case plan_batches MAX_FILE_BYTES (max 0 (free_bytes_d - SAFETY_MARGIN_BYTES)) [] of
               None \<Rightarrow> None
             | Some batch_sizes \<Rightarrow>
                 (case mkdir env
                         (''SentinelSweep_'' @ strftime env (clock w) @ ''_''
                            @ token_hex env (steps w)) w of
                    (Some e, w1) \<Rightarrow>
                      Some (failure ''Free-space sweep failed''
                              (''Could not create test directory: '' @ e) [], w1)
                  | (None, w1) \<Rightarrow>
                      (case batch_loop env ''Free-space sweep failed''
                              (''SentinelSweep_'' @ strftime env (clock w) @ ''_''
                                 @ token_hex env (steps w)) batch_sizes 0 [] w1 of
                         (ending, w2) \<Rightarrow>
                           Some
                             (case ending of
                                Returned r \<Rightarrow> r
                              | AbortedAt vd \<Rightarrow>
                                  free_space_aborted batch_sizes
                                    (max 0 (free_bytes_d - SAFETY_MARGIN_BYTES)) vd
                              | Finished vd \<Rightarrow>
                                  success ''Free-space sweep passed'' batch_sizes
                                    (max 0 (free_bytes_d - SAFETY_MARGIN_BYTES)) vd,
                              cleanup env
                                (''SentinelSweep_'' @ strftime env (clock w) @ ''_''
                                   @ token_hex env (steps w)) w2)))))"

subsection \<open>The manifest engine\<close>

definition SENTINEL_DIR :: string where
  "SENTINEL_DIR = ''Sentinel''"

datatype exn = OSError string | UnicodeDecodeError | AttributeError

text \<open>\<^verbatim>\<open>str.upper\<close> on the letters \<open>a\<close> to \<open>z\<close>; other characters stay.\<close>

definition upper_char :: "char \<Rightarrow> char" where
  "upper_char c =
     (if (97::nat) \<le> of_char c \<and> of_char c \<le> (122::nat)
      then char_of (of_char c - (32::nat)) else c)"

text \<open>
  The stem of \<^verbatim>\<open>_manifest_path\<close>:
  \<^verbatim>\<open>drive_root.replace("\\", "").replace(":", "").upper() or "UNKNOWN"\<close>.
  The directories it creates on the host are not modelled.
\<close>

definition manifest_key :: "string \<Rightarrow> string" where
  "manifest_key drive_root =
     (let letter = map upper_char [c \<leftarrow> drive_root. c \<noteq> CHR 0x5C \<and> c \<noteq> CHR '':'']
      in if letter = [] then ''UNKNOWN'' else letter)"

definition is_file :: "fnode \<Rightarrow> bool" where
  "is_file n = (n \<noteq> Directory)"

text \<open>
  \<^verbatim>\<open>build_manifest\<close>: the files \<^verbatim>\<open>rglob\<close> lists, without those whose path starts
  with the path of the Sentinel folder, each hashed unless reading it raises.
\<close>

fun build_loop ::
  "'g env \<Rightarrow> path list \<Rightarrow> (string \<times> string) list \<Rightarrow> string list \<Rightarrow> world
     \<Rightarrow> ((string \<times> string) list \<times> string list \<times> bool) \<times> world" where
  "build_loop env [] manifest paths w = ((manifest, paths, False), w)"
| "build_loop env (p # ps) manifest paths w =
     (case poll_abort env w of
        (True, w1) \<Rightarrow> ((manifest, paths, True), w1)
      | (False, w1) \<Rightarrow>
          (case hash_file_chunked env p (nat WRITE_CHUNK_BYTES) w1 of
             (Inl e, w2) \<Rightarrow> build_loop env ps manifest paths w2
           | (Inr h, w2) \<Rightarrow> build_loop env ps (AList.update p h manifest) (paths @ [p]) w2))"

definition all_files :: "world \<Rightarrow> path list" where
  "all_files w = [p. (p, n) \<leftarrow> fs w, is_file n \<and> \<not> startswith p SENTINEL_DIR]"

definition build_manifest ::
  "'g env \<Rightarrow> world \<Rightarrow> ((string \<times> string) list \<times> string list \<times> bool) \<times> world" where
  "build_manifest env w = build_loop env (all_files w) [] [] w"

definition save_manifest ::
  "'g env \<Rightarrow> string \<Rightarrow> (string \<times> string) list \<Rightarrow> world \<Rightarrow> exn option \<times> world" where
  "save_manifest env drive_root manifest w =
     (case os_call env (EvSaveManifest (manifest_key drive_root)) w of
        (Fails e, w1) \<Rightarrow> (Some (OSError e), w1)
      | (_, w1) \<Rightarrow>
          (None, w1\<lparr>manifests :=
             AList.update (manifest_key drive_root) (JsonDict manifest) (manifests w1)\<rparr>))"

text \<open>
  \<^verbatim>\<open>load_manifest\<close> returns \<^verbatim>\<open>None\<close> or what \<^verbatim>\<open>json.load\<close> returns, and catches
  \<^verbatim>\<open>json.JSONDecodeError\<close> and \<^verbatim>\<open>OSError\<close> only.
\<close>

datatype loaded = NonDict | Dict "(string \<times> string) list"

definition load_manifest ::
  "'g env \<Rightarrow> string \<Rightarrow> world \<Rightarrow> (exn + loaded option) \<times> world" where
  "load_manifest env drive_root w =
     (case map_of (manifests w) (manifest_key drive_root) of
        None \<Rightarrow> (Inr None, w)
      | Some NoFile \<Rightarrow> (Inr None, w)
      | Some file \<Rightarrow>
          (case os_call env (EvLoadManifest (manifest_key drive_root)) w of
             (Fails e, w1) \<Rightarrow> (Inr None, w1)
           | (_, w1) \<Rightarrow>
               (case file of
                  NotUtf8 \<Rightarrow> (Inl UnicodeDecodeError, w1)
                | NotJson \<Rightarrow> (Inr None, w1)
                | JsonNull \<Rightarrow> (Inr None, w1)
                | JsonNonDict \<Rightarrow> (Inr (Some NonDict), w1)
                | JsonDict m \<Rightarrow> (Inr (Some (Dict m)), w1)
                | NoFile \<Rightarrow> (Inr None, w1))))"

record manifest_record =
  path :: string
  stored_hash :: string
  read_hash :: "string option"
  matches :: bool
  note_text :: "string option"

text \<open>
  The fields \<open>stored_hash\<close>, \<open>matches\<close> and \<open>note_text\<close> are the keys
  \<^verbatim>\<open>expected_hash\<close>, \<^verbatim>\<open>match\<close> and \<^verbatim>\<open>note\<close> of the dictionaries
  \<^verbatim>\<open>verify_manifest\<close> appends.
\<close>

fun verify_loop ::
  "'g env \<Rightarrow> (string \<times> string) list \<Rightarrow> string list \<Rightarrow> manifest_record list \<Rightarrow> world
     \<Rightarrow> (bool \<times> string list \<times> manifest_record list \<times> bool) \<times> world" where
  "verify_loop env [] mismatches vd w = ((mismatches = [], mismatches, vd, False), w)"
| "verify_loop env ((rel, expected) # entries) mismatches vd w =
     (case poll_abort env w of
        (True, w1) \<Rightarrow> ((mismatches = [], mismatches, vd, True), w1)
      | (False, w1) \<Rightarrow>
          if \<not> path_exists w1 rel then
            verify_loop env entries (mismatches @ [rel @ '' (missing)''])
              (vd @ [\<lparr>path = rel, stored_hash = expected, read_hash = None,
                      matches = False, note_text = Some ''missing''\<rparr>]) w1
          else
            (case hash_file_chunked env rel (nat WRITE_CHUNK_BYTES) w1 of
               (Inr h, w2) \<Rightarrow>
                 verify_loop env entries
                   (if \<not> (h = expected) then mismatches @ [rel] else mismatches)
                   (vd @ [\<lparr>path = rel, stored_hash = expected, read_hash = Some h,
                           matches = (h = expected), note_text = None\<rparr>]) w2
             | (Inl e, w2) \<Rightarrow>
                 verify_loop env entries (mismatches @ [rel @ '' (read error)''])
                   (vd @ [\<lparr>path = rel, stored_hash = expected, read_hash = None,
                           matches = False, note_text = Some ''read error''\<rparr>]) w2))"

definition verify_manifest ::
  "'g env \<Rightarrow> (string \<times> string) list \<Rightarrow> world
     \<Rightarrow> (bool \<times> string list \<times> manifest_record list \<times> bool) \<times> world" where
  "verify_manifest env manifest w = verify_loop env manifest [] [] w"

subsection \<open>The full sweep\<close>

text \<open>
  \<^verbatim>\<open>write_last_sweep_timestamp\<close>: \<^verbatim>\<open>mkdir(parents=True, exist_ok=True)\<close> of the
  Sentinel folder, then \<^verbatim>\<open>write_text(datetime.now().isoformat())\<close>. Neither call is
  guarded, so an \<^verbatim>\<open>OSError\<close> leaves the function.
\<close>

definition write_last_sweep_timestamp :: "'g env \<Rightarrow> world \<Rightarrow> exn option \<times> world" where
  "write_last_sweep_timestamp env w =
     (case os_call env (EvMkdir SENTINEL_DIR) w of
        (Fails e, w1) \<Rightarrow> (Some (OSError e), w1)
      | (_, w1) \<Rightarrow>
          (case map_of (fs w1) SENTINEL_DIR of
             Some (Regular c) \<Rightarrow> (Some (OSError ''File exists''), w1)
           | Some Unreadable \<Rightarrow> (Some (OSError ''File exists''), w1)
           | dir \<Rightarrow>
               (case os_call env EvWriteMarker
                       (if dir = None then w1\<lparr>fs := fs w1 @ [(SENTINEL_DIR, Directory)]\<rparr>
                        else w1) of
                  (Fails e, w2) \<Rightarrow> (Some (OSError e), w2)
                | (_, w2) \<Rightarrow> (None, w2\<lparr>last_sweep := Some (clock w1)\<rparr>))))"

record sweep_result =
  sw_passed :: bool
  sw_message :: string
  sw_details :: string
  manifest_passed :: bool
  free_space_passed :: bool
  vd_manifest :: "manifest_record list"
  vd_free_space :: "batch_record list"
  sw_aborted :: bool

text \<open>
  The fields \<open>sw_passed\<close>, \<open>sw_message\<close>, \<open>sw_details\<close> and \<open>sw_aborted\<close> are the keys
  \<^verbatim>\<open>passed\<close>, \<^verbatim>\<open>message\<close>, \<^verbatim>\<open>details\<close> and \<^verbatim>\<open>aborted\<close> (absent is \<open>False\<close>);
  \<open>vd_manifest\<close> and \<open>vd_free_space\<close> are the two lists under
  \<^verbatim>\<open>verification_details\<close>.
\<close>

definition initial_result :: sweep_result where
  "initial_result =
     \<lparr>sw_passed = True, sw_message = ''Full sweep passed'', sw_details = [],
      manifest_passed = True, free_space_passed = True,
      vd_manifest = [], vd_free_space = [], sw_aborted = False\<rparr>"

fun join :: "string \<Rightarrow> string list \<Rightarrow> string" where
  "join sep [] = []"
| "join sep [x] = x"
| "join sep (x # y # ys) = x @ sep @ join sep (y # ys)"

definition newline :: string where
  "newline = [CHR 0x0A]"

text \<open>Steps 3 and 4 of \<^verbatim>\<open>full_sweep\<close> (sweep.py 418-443).\<close>

definition free_space_phase ::
  "'g env \<Rightarrow> string list \<Rightarrow> sweep_result \<Rightarrow> world \<Rightarrow> ((exn + sweep_result) \<times> world) option" where
  "free_space_phase env parts result w =
     (case free_space_sweep env w of
        None \<Rightarrow> None
      | Some (fs_result, w1) \<Rightarrow>
          if aborted fs_result \<noteq> None then
            Some (Inr (result\<lparr>free_space_passed := passed fs_result,
                          vd_free_space := verification_details fs_result,
                          sw_aborted := True, sw_message := ''Full sweep aborted'',
                          sw_details := join newline parts @ newline @ details fs_result\<rparr>), w1)
          else if \<not> passed fs_result then
            Some (Inr (result\<lparr>free_space_passed := passed fs_result,
                          vd_free_space := verification_details fs_result,
                          sw_passed := False, sw_message := ''Full sweep failed'',
                          sw_details := join newline
                            (parts @ [''Free-space sweep failed: '' @ details fs_result])\<rparr>), w1)
          else
            (case write_last_sweep_timestamp env w1 of
               (Some x, w2) \<Rightarrow> Some (Inl x, w2)
             | (None, w2) \<Rightarrow>
                 Some (Inr (result\<lparr>free_space_passed := passed fs_result,
                               vd_free_space := verification_details fs_result,
                               sw_details := join newline (parts @ [details fs_result])\<rparr>),
                       w2)))"

definition mismatch_summary :: "string list \<Rightarrow> string" where
  "mismatch_summary mismatches =
     ''File verification failed ('' @ str_int (int (length mismatches)) @ '' mismatch(es)): ''
       @ join ''; '' (take 5 mismatches)
       @ (if 5 < length mismatches
          then [CHR 0x20, CHR 0xE2, CHR 0x80, CHR 0xA6] @ '' and ''
                 @ str_int (int (length mismatches) - 5) @ '' more''
          else [])"

text \<open>
  \<^verbatim>\<open>full_sweep\<close>. \<open>Inl\<close> is an exception that leaves the function, \<open>None\<close> a run
  that does not return. The two callbacks only report and are left out.
\<close>

definition full_sweep ::
  "'g env \<Rightarrow> string \<Rightarrow> world \<Rightarrow> ((exn + sweep_result) \<times> world) option" where
  "full_sweep env drive_root w =
     (case load_manifest env drive_root w of
        (Inl x, w1) \<Rightarrow> Some (Inl x, w1)
      | (Inr None, w1) \<Rightarrow>
          (case build_manifest env w1 of
             ((m, paths, build_aborted), w2) \<Rightarrow>
               if build_aborted then
                 Some (Inr (initial_result\<lparr>sw_aborted := True,
                               sw_message := ''Full sweep aborted'',
                               sw_details := ''Manifest build aborted. ''
                                 @ str_int (int (length paths))
                                 @ '' files hashed. No manifest saved; no timestamp written.'',
                               vd_manifest := []\<rparr>), w2)
               else
                 (case save_manifest env drive_root m w2 of
                    (Some x, w3) \<Rightarrow> Some (Inl x, w3)
                  | (None, w3) \<Rightarrow>
                      free_space_phase env [''Manifest built (new card).''] initial_result w3))
      | (Inr (Some NonDict), w1) \<Rightarrow> Some (Inl AttributeError, w1)
      | (Inr (Some (Dict manifest)), w1) \<Rightarrow>
          (case verify_manifest env manifest w1 of
             ((ok, mismatches, manifest_vd, verify_aborted), w2) \<Rightarrow>
               if verify_aborted then
                 Some (Inr (initial_result\<lparr>manifest_passed := ok, vd_manifest := manifest_vd,
                               sw_aborted := True, sw_message := ''Full sweep aborted'',
                               sw_details := ''File verification aborted. ''
                                 @ str_int (int (length (filter matches manifest_vd))) @ ''/''
                                 @ str_int (int (length manifest_vd))
                                 @ '' files verified, all matched. No timestamp written.''\<rparr>),
                       w2)
               else if \<not> ok then
                 Some (Inr (initial_result\<lparr>manifest_passed := ok, vd_manifest := manifest_vd,
                               sw_passed := False, sw_message := ''Full sweep failed'',
                               sw_details := join newline [mismatch_summary mismatches]\<rparr>), w2)
               else
                 free_space_phase env [''File verification passed.'']
                   (initial_result\<lparr>manifest_passed := ok, vd_manifest := manifest_vd\<rparr>) w2))"

subsection \<open>The window after a full sweep\<close>

text \<open>
  What the window of \<^verbatim>\<open>sentinel_ui.py\<close> does when a full sweep has returned
  (\<^verbatim>\<open>_on_full_sweep_done\<close>, lines 543-546): it saves
  \<^verbatim>\<open>last_sweep_time=datetime.now().isoformat()\<close> in the host configuration, without
  looking at the result. \<^verbatim>\<open>run_full_sweep\<close> of \<^verbatim>\<open>api.py\<close> and the command line
  save nothing.
\<close>

definition on_full_sweep_done :: "sweep_result \<Rightarrow> world \<Rightarrow> world" where
  "on_full_sweep_done result w = w\<lparr>config_last_sweep_time := Some (clock w)\<rparr>"

section \<open>Vocabulary of the properties\<close>

subsection \<open>Relations between the world before and after\<close>

text \<open>
  \<open>frame\<close> holds across operating-system calls, \<open>evolves\<close> also across abort polls:
  the timestamps, the manifest store and the disk usage are as before, and the clock
  and the counters have not gone back.
\<close>

definition frame :: "world \<Rightarrow> world \<Rightarrow> bool" where
  "frame w w' \<longleftrightarrow>
     last_sweep w' = last_sweep w \<and> config_last_sweep_time w' = config_last_sweep_time w
     \<and> manifests w' = manifests w \<and> disk_total w' = disk_total w \<and> disk_free w' = disk_free w
     \<and> clock w \<le> clock w' \<and> steps w \<le> steps w' \<and> polls w' = polls w"

definition evolves :: "world \<Rightarrow> world \<Rightarrow> bool" where
  "evolves w w' \<longleftrightarrow>
     last_sweep w' = last_sweep w \<and> config_last_sweep_time w' = config_last_sweep_time w
     \<and> manifests w' = manifests w \<and> disk_total w' = disk_total w \<and> disk_free w' = disk_free w
     \<and> clock w \<le> clock w' \<and> steps w \<le> steps w' \<and> polls w \<le> polls w'"

text \<open>
  The two timestamps are untouched and the clock has not gone back.
\<close>

definition keeps_marker :: "world \<Rightarrow> world \<Rightarrow> bool" where
  "keeps_marker w w' \<longleftrightarrow>
     last_sweep w' = last_sweep w \<and> config_last_sweep_time w' = config_last_sweep_time w
     \<and> clock w \<le> clock w'"

subsection \<open>Planned content, reads and the ways a loop ends\<close>

text \<open>
  The bytes the write loop generates for a batch, without the writing: a function of the
  generator and the batch size only.
\<close>

function planned_content :: "('g \<Rightarrow> nat \<Rightarrow> bytes \<times> 'g) \<Rightarrow> 'g \<Rightarrow> int \<Rightarrow> bytes" where
  "planned_content rb rng remaining =
     (if 0 < remaining then
        (case rb rng (nat (min WRITE_CHUNK_BYTES remaining)) of
           (chunk, rng') \<Rightarrow>
             chunk @ planned_content rb rng' (remaining - min WRITE_CHUNK_BYTES remaining))
      else [])"
  by pat_completeness auto
termination
  by (relation "measure (\<lambda>(rb, rng, remaining). nat remaining)")
     (auto simp: WRITE_CHUNK_BYTES_def)

declare planned_content.simps [simp del]

definition planned_hash :: "'g env \<Rightarrow> int \<Rightarrow> int \<Rightarrow> string" where
  "planned_hash env batch_i fsize =
     sha256_hex env (planned_content (randbytes env) (Random env batch_i) fsize)"

fun is_read :: "event \<Rightarrow> bool" where
  "is_read (EvRead p) = True"
| "is_read _ = False"

definition reads :: "world \<Rightarrow> nat" where
  "reads w = length (filter is_read (trace w))"

fun records_of :: "loop_end \<Rightarrow> batch_record list" where
  "records_of (Finished vd) = vd"
| "records_of (AbortedAt vd) = vd"
| "records_of (Returned r) = verification_details r"

definition passed_record :: "batch_record \<Rightarrow> bool" where
  "passed_record r \<longleftrightarrow>
     match r \<and> read1_hash r = expected_hash r \<and> read2_hash r = Some (expected_hash r)"

text \<open>
  How a loop over \<open>n\<close> batches that made \<open>d\<close> reads and added the records \<open>new\<close> has
  ended.
\<close>

fun ending_ok :: "loop_end \<Rightarrow> string \<Rightarrow> nat \<Rightarrow> nat \<Rightarrow> batch_record list \<Rightarrow> bool" where
  "ending_ok (Finished vd) fm d n new =
     (list_all passed_record new \<and> length new = n \<and> d = 2 * length new)"
| "ending_ok (AbortedAt vd) fm d n new =
     (list_all passed_record new \<and> length new < n \<and> d = 2 * length new)"
| "ending_ok (Returned r) fm d n new =
     (\<not> passed r \<and> aborted r = None \<and> message r = fm \<and>
      (list_all passed_record new \<or>
       (\<exists>good rec. new = good @ [rec] \<and> list_all passed_record good \<and> \<not> match rec \<and>
          ((read1_hash rec \<noteq> expected_hash rec \<and> read2_hash rec = None
            \<and> details r = ''Hash mismatch on batch '' @ str_int (batch rec) @ '' (first read).''
            \<and> d = 2 * length good + 1)
           \<or> (read1_hash rec = expected_hash rec \<and> read2_hash rec \<noteq> None
               \<and> read2_hash rec \<noteq> Some (expected_hash rec)
               \<and> details r = ''Hash mismatch on batch '' @ str_int (batch rec) @ '' (second read).''
               \<and> d = 2 * length good + 2)))))"

subsection \<open>Outcomes of manifest entries\<close>



definition is_absence :: "world \<Rightarrow> manifest_record \<Rightarrow> bool" where
  "is_absence w v \<longleftrightarrow>
     \<not> matches v \<and> read_hash v = None
     \<and> ((note_text v = Some ''missing'' \<and> \<not> path_exists w (path v))
        \<or> (note_text v = Some ''read error'' \<and> path_exists w (path v)))"




subsection \<open>Timestamps after a sweep\<close>

text \<open>
  What \<^verbatim>\<open>full_sweep\<close> itself does to the timestamps: the host one is untouched; the drive one is
  written, with a time not before \<open>t0\<close>, exactly when the result is a pass that is not
  aborted, and is untouched otherwise.
\<close>

definition sweep_post :: "nat \<Rightarrow> world \<Rightarrow> exn + sweep_result \<Rightarrow> world \<Rightarrow> bool" where
  "sweep_post t0 w out w' \<longleftrightarrow>
     config_last_sweep_time w' = config_last_sweep_time w
     \<and> (case out of
           Inl x \<Rightarrow> last_sweep w' = last_sweep w
         | Inr r \<Rightarrow>
             if sw_passed r \<and> \<not> sw_aborted r
             then manifest_passed r \<and> free_space_passed r
                  \<and> (case last_sweep w' of None \<Rightarrow> False | Some t \<Rightarrow> t0 \<le> t)
             else last_sweep w' = last_sweep w)"

subsection \<open>Example surroundings\<close>

text \<open>
  A generator that repeats its seed, a digest that is the decimal length of the data, a
  clock that advances by one at every call, and a drive that holds one file.
\<close>

definition demo_env :: "(nat \<Rightarrow> fault) \<Rightarrow> (nat \<Rightarrow> bool) option \<Rightarrow> nat env" where
  "demo_env faults abort =
     \<lparr>sha256_hex = (\<lambda>bs. str_nat (length bs)),
      Random = nat,
      randbytes = (\<lambda>g n. (replicate n (of_nat g), Suc g)),
      strftime = (\<lambda>t. ''20240101_120000''),
      token_hex = (\<lambda>n. ''0a1b2c3d''),
      fault_at = faults,
      tick = (\<lambda>n. 1),
      abort_check = abort\<rparr>"

definition demo_world :: "int \<Rightarrow> world" where
  "demo_world free =
     \<lparr>clock = 1000, steps = 0, polls = 0,
      disk_total = 32 * 1024 * 1024 * 1024, disk_free = free,
      fs = [(''photo.jpg'', Regular [1, 2, 3])],
      last_sweep = None, manifests = [], config_last_sweep_time = None, trace = []\<rparr>"


definition corrupt_world :: world where
  "corrupt_world =
     \<lparr>clock = 1000, steps = 0, polls = 0,
      disk_total = 32 * 1024 * 1024 * 1024, disk_free = 16 * 1024 * 1024 * 1024,
      fs = [(''photo.jpg'', Regular [1, 2, 3])],
      last_sweep = None, manifests = [(''G'', NotUtf8)], config_last_sweep_time = None,
      trace = []\<rparr>"

definition drive_G :: string where
  "drive_G = [CHR ''G'', CHR '':'', CHR 0x5C]"

section \<open>Properties\<close>

subsection \<open>Batch planning\<close>

lemma plan_batches_done: "remaining \<le> 0 \<Longrightarrow> plan_batches M remaining acc = Some acc"
  by (subst plan_batches.simps) simp

lemma batch_list_small:
  assumes "0 < N" "N \<le> M"
  shows "batch_list M N = [N]"
proof (cases "N = M")
  case True
  then show ?thesis using assms by (simp add: batch_list_def)
next
  case False
  then have "N < M" using assms by simp
  then show ?thesis using assms by (simp add: batch_list_def)
qed

lemma batch_list_step:
  assumes "0 < M" "M < N"
  shows "batch_list M N = M # batch_list M (N - M)"
proof -
  have d: "N div M = (N - M) div M + 1"
    using assms by (metis diff_add_cancel div_add_self2 less_irrefl)
  have m: "N mod M = (N - M) mod M"
    using assms by (metis diff_add_cancel mod_add_self2)
  have nn: "0 \<le> (N - M) div M"
    using assms by (simp add: pos_imp_zdiv_nonneg_iff)
  have n: "nat (N div M) = Suc (nat ((N - M) div M))"
    using d nn by simp
  show ?thesis unfolding batch_list_def n m by simp
qed

lemma plan_batches_closed:
  assumes "0 < M"
  shows "0 \<le> N \<Longrightarrow> plan_batches M N acc = Some (acc @ batch_list M N)"
proof (induction "nat N" arbitrary: N acc rule: less_induct)
  case less
  show ?case
  proof (cases "N = 0")
    case True
    then show ?thesis by (simp add: plan_batches_done batch_list_def)
  next
    case False
    then have pos: "0 < N" using less.prems by simp
    show ?thesis
    proof (cases "N \<le> M")
      case True
      then have "plan_batches M N acc = plan_batches M 0 (acc @ [N])"
        using pos by (subst plan_batches.simps) simp
      then show ?thesis using pos True by (simp add: plan_batches_done batch_list_small)
    next
      case False
      then have big: "M < N" by simp
      then have "plan_batches M N acc = plan_batches M (N - M) (acc @ [M])"
        using pos by (subst plan_batches.simps) simp
      also have "\<dots> = Some ((acc @ [M]) @ batch_list M (N - M))"
        using less.hyps [of "N - M" "acc @ [M]"] big assms by simp
      finally show ?thesis using batch_list_step [OF assms big] by simp
    qed
  qed
qed

lemma sum_list_batch_list:
  assumes "0 < M" "0 \<le> N"
  shows "sum_list (batch_list M N) = N"
proof -
  have "0 \<le> N div M" using assms by (simp add: pos_imp_zdiv_nonneg_iff)
  then have "sum_list (batch_list M N) = N div M * M + N mod M"
    by (auto simp: batch_list_def sum_list_replicate)
  then show ?thesis by simp
qed

lemma set_batch_list:
  assumes "0 < M" "b \<in> set (batch_list M N)"
  shows "0 < b \<and> b \<le> M"
proof -
  have "N mod M < M" "0 \<le> N mod M" using assms(1) by simp_all
  then have "N mod M \<noteq> 0 \<Longrightarrow> 0 < N mod M \<and> N mod M \<le> M" by linarith
  then show ?thesis using assms by (auto simp: batch_list_def split: if_splits)
qed

lemma batch_list_empty: "0 < M \<Longrightarrow> 0 \<le> N \<Longrightarrow> batch_list M N = [] \<longleftrightarrow> N = 0"
proof -
  assume M: "0 < M" and N: "0 \<le> N"
  have "N div M = 0 \<and> N mod M = 0 \<longleftrightarrow> N = 0"
    using M by (metis div_mult_mod_eq add.right_neutral mult_zero_right div_0 mod_0)
  moreover have "0 \<le> N div M" using M N by (simp add: pos_imp_zdiv_nonneg_iff)
  ultimately show ?thesis by (auto simp: batch_list_def)
qed

lemma batch_list_init: "Suc i < length (batch_list M N) \<Longrightarrow> batch_list M N ! i = M"
  by (auto simp: batch_list_def nth_append split: if_splits)

text \<open>
  C2. For every total \<open>N \<ge> 0\<close> and every cap \<open>M > 0\<close> the planning loop returns, and
  the sequence it returns sums to \<open>N\<close>, has every element positive and at most \<open>M\<close>, is
  empty exactly when \<open>N = 0\<close>, and has every element but the last equal to \<open>M\<close>.
\<close>

theorem plan_batches_correct:
  assumes "0 \<le> N" and "0 < M"
  shows "\<exists>bs. plan_batches M N [] = Some bs
           \<and> sum_list bs = N
           \<and> (\<forall>b \<in> set bs. 0 < b \<and> b \<le> M)
           \<and> (bs = [] \<longleftrightarrow> N = 0)
           \<and> (\<forall>i. Suc i < length bs \<longrightarrow> bs ! i = M)"
proof -
  have "plan_batches M N [] = Some (batch_list M N)"
    using plan_batches_closed [OF assms(2) assms(1), of "[]"] by simp
  moreover have "sum_list (batch_list M N) = N"
    using assms by (simp add: sum_list_batch_list)
  moreover have "\<forall>b \<in> set (batch_list M N). 0 < b \<and> b \<le> M"
    using assms set_batch_list by blast
  moreover have "batch_list M N = [] \<longleftrightarrow> N = 0"
    using assms by (simp add: batch_list_empty)
  moreover have "\<forall>i. Suc i < length (batch_list M N) \<longrightarrow> batch_list M N ! i = M"
    using batch_list_init by blast
  ultimately show ?thesis by blast
qed

theorem plan_batches_correct_witness:
  "(0::int) \<le> 5 \<and> (0::int) < 2
   \<and> (\<exists>bs. plan_batches 2 5 [] = Some bs
           \<and> sum_list bs = 5
           \<and> (\<forall>b \<in> set bs. 0 < b \<and> b \<le> 2)
           \<and> (bs = [] \<longleftrightarrow> (5::int) = 0)
           \<and> (\<forall>i. Suc i < length bs \<longrightarrow> bs ! i = 2))"
  using plan_batches_correct [of 5 2] by simp
subsection \<open>What the operating-system calls leave alone\<close>

lemma plan_batches_MAX: "0 \<le> n \<Longrightarrow> plan_batches MAX_FILE_BYTES n [] = Some (batch_list MAX_FILE_BYTES n)"
  using plan_batches_closed [of MAX_FILE_BYTES n "[]"] by (simp add: MAX_FILE_BYTES_def)

lemma read_loop_all: "0 < c \<Longrightarrow> read_loop c h rest = h @ rest"
proof (induction c h rest rule: read_loop.induct)
  case (1 c h rest)
  show ?case
  proof (cases "take c rest = []")
    case True
    then have "rest = []" using 1(2) by simp
    then show ?thesis by (subst read_loop.simps) simp
  next
    case False
    then show ?thesis using 1 by (subst read_loop.simps) simp
  qed
qed

lemma frame_refl: "frame w w"
  by (simp add: frame_def)

lemma frame_trans: "frame w w1 \<Longrightarrow> frame w1 w2 \<Longrightarrow> frame w w2"
  by (auto simp: frame_def)

lemma frame_os_call: "os_call env ev w = (f, w') \<Longrightarrow> frame w w'"
  by (auto simp: os_call_def frame_def)

lemma evolves_refl: "evolves w w"
  by (simp add: evolves_def)

lemma evolves_trans: "evolves w w1 \<Longrightarrow> evolves w1 w2 \<Longrightarrow> evolves w w2"
  by (auto simp: evolves_def)

lemma frame_evolves: "frame w w' \<Longrightarrow> evolves w w'"
  by (simp add: frame_def evolves_def)

lemma evolves_poll_abort: "poll_abort env w = (b, w') \<Longrightarrow> evolves w w'"
  by (auto simp: poll_abort_def evolves_def split: option.splits)

lemma frame_fs_update: "frame w w' \<Longrightarrow> frame w (w'\<lparr>fs := x\<rparr>)"
  by (simp add: frame_def)

lemma frame_mkdir: "mkdir env p w = (r, w') \<Longrightarrow> frame w w'"
  by (auto simp: mkdir_def split: prod.splits fault.splits if_splits
           dest!: frame_os_call intro: frame_fs_update)

lemma frame_open_wb: "open_wb env p w = (r, w') \<Longrightarrow> frame w w'"
  by (auto simp: open_wb_def split: prod.splits fault.splits
           dest!: frame_os_call intro: frame_fs_update)

lemma frame_write_chunk: "write_chunk env p c w = (r, w') \<Longrightarrow> frame w w'"
  by (auto simp: write_chunk_def split: prod.splits fault.splits
           dest!: frame_os_call intro: frame_fs_update)

lemma frame_read_file: "read_file env p w = (r, w') \<Longrightarrow> frame w w'"
  by (auto simp: read_file_def split: prod.splits fault.splits option.splits fnode.splits
           dest!: frame_os_call)

lemma frame_iterdir: "iterdir env p w = (r, w') \<Longrightarrow> frame w w'"
  by (auto simp: iterdir_def split: prod.splits fault.splits dest!: frame_os_call)

lemma frame_unlink: "unlink env p w = (r, w') \<Longrightarrow> frame w w'"
  by (auto simp: unlink_def split: prod.splits fault.splits
           dest!: frame_os_call intro: frame_fs_update)

lemma frame_rmdir: "rmdir env p w = (r, w') \<Longrightarrow> frame w w'"
  by (auto simp: rmdir_def split: prod.splits fault.splits
           dest!: frame_os_call intro: frame_fs_update)

lemma frame_hash_file: "hash_file_chunked env p c w = (r, w') \<Longrightarrow> frame w w'"
  by (auto simp: hash_file_chunked_def split: prod.splits sum.splits dest: frame_read_file)

lemma frame_write_loop: "write_loop env p fsize written rng hasher w = (r, w') \<Longrightarrow> frame w w'"
proof (induction env p fsize written rng hasher w rule: write_loop.induct)
  case (1 env p fsize written rng hasher w)
  show ?case
  proof (cases "written < fsize")
    case False
    then show ?thesis using "1.prems" by (subst (asm) write_loop.simps) (simp add: frame_refl)
  next
    case True
    obtain chunk rng' where rb: "randbytes env rng (nat (min WRITE_CHUNK_BYTES (fsize - written))) = (chunk, rng')"
      by (cases "randbytes env rng (nat (min WRITE_CHUNK_BYTES (fsize - written)))")
    obtain e w1 where wc: "write_chunk env p chunk w = (e, w1)"
      by (cases "write_chunk env p chunk w")
    have f1: "frame w w1" using wc by (rule frame_write_chunk)
    show ?thesis
    proof (cases e)
      case (Some msg)
      then show ?thesis using "1.prems" True rb wc f1
        by (subst (asm) write_loop.simps) simp
    next
      case None
      then have "write_loop env p fsize (written + min WRITE_CHUNK_BYTES (fsize - written)) rng'
                   (hasher @ chunk) w1 = (r, w')"
        using "1.prems" True rb wc by (subst (asm) write_loop.simps) simp
      then have "frame w1 w'" using "1.IH" [OF True rb [symmetric] _ _ ] wc None by simp
      then show ?thesis using f1 frame_trans by blast
    qed
  qed
qed

subsection \<open>The planned content of a batch and the reads of a run\<close>

lemma write_loop_content:
  "write_loop env p fsize written rng hasher w = (Inr h, w')
   \<Longrightarrow> h = hasher @ planned_content (randbytes env) rng (fsize - written)"
proof (induction env p fsize written rng hasher w rule: write_loop.induct)
  case (1 env p fsize written rng hasher w)
  show ?case
  proof (cases "written < fsize")
    case False
    then show ?thesis using "1.prems"
      by (subst (asm) write_loop.simps) (simp add: planned_content.simps)
  next
    case True
    obtain chunk rng' where rb: "randbytes env rng (nat (min WRITE_CHUNK_BYTES (fsize - written))) = (chunk, rng')"
      by (cases "randbytes env rng (nat (min WRITE_CHUNK_BYTES (fsize - written)))")
    obtain e w1 where wc: "write_chunk env p chunk w = (e, w1)"
      by (cases "write_chunk env p chunk w")
    show ?thesis
    proof (cases e)
      case (Some msg)
      then show ?thesis using "1.prems" True rb wc
        by (subst (asm) write_loop.simps) simp
    next
      case None
      then have "write_loop env p fsize (written + min WRITE_CHUNK_BYTES (fsize - written)) rng'
                   (hasher @ chunk) w1 = (Inr h, w')"
        using "1.prems" True rb wc by (subst (asm) write_loop.simps) simp
      then have "h = (hasher @ chunk) @ planned_content (randbytes env) rng'
                   (fsize - (written + min WRITE_CHUNK_BYTES (fsize - written)))"
        using "1.IH" [OF True rb [symmetric] _ _ ] wc None by simp
      moreover have "planned_content (randbytes env) rng (fsize - written)
          = chunk @ planned_content (randbytes env) rng'
                   (fsize - written - min WRITE_CHUNK_BYTES (fsize - written))"
        using True rb by (subst planned_content.simps) simp
      moreover have "fsize - (written + min WRITE_CHUNK_BYTES (fsize - written))
          = fsize - written - min WRITE_CHUNK_BYTES (fsize - written)" by simp
      ultimately show ?thesis by simp
    qed
  qed
qed

lemma write_batch_hash:
  "write_batch env p batch_i fsize w = (Inr h, w') \<Longrightarrow> h = planned_hash env batch_i fsize"
  by (auto simp: write_batch_def planned_hash_def split: prod.splits option.splits sum.splits
           dest: write_loop_content)

lemma reads_os_call:
  "os_call env ev w = (f, w') \<Longrightarrow> reads w' = reads w + (if is_read ev then 1 else 0)"
  by (auto simp: os_call_def reads_def)

lemma reads_fs_update [simp]: "reads (w\<lparr>fs := x\<rparr>) = reads w"
  by (simp add: reads_def)

lemma reads_polls_update [simp]: "reads (w\<lparr>polls := x\<rparr>) = reads w"
  by (simp add: reads_def)

lemma reads_poll_abort: "poll_abort env w = (b, w') \<Longrightarrow> reads w' = reads w"
  by (auto simp: poll_abort_def split: option.splits)

lemma reads_mkdir: "mkdir env p w = (r, w') \<Longrightarrow> reads w' = reads w"
  by (auto simp: mkdir_def split: prod.splits fault.splits if_splits dest!: reads_os_call)

lemma reads_open_wb: "open_wb env p w = (r, w') \<Longrightarrow> reads w' = reads w"
  by (auto simp: open_wb_def split: prod.splits fault.splits dest!: reads_os_call)

lemma reads_write_chunk: "write_chunk env p c w = (r, w') \<Longrightarrow> reads w' = reads w"
  by (auto simp: write_chunk_def split: prod.splits fault.splits dest!: reads_os_call)

lemma reads_read_file: "read_file env p w = (r, w') \<Longrightarrow> reads w' = Suc (reads w)"
  by (auto simp: read_file_def split: prod.splits fault.splits option.splits fnode.splits
           dest!: reads_os_call)

lemma reads_hash_file: "hash_file_chunked env p c w = (r, w') \<Longrightarrow> reads w' = Suc (reads w)"
  by (auto simp: hash_file_chunked_def split: prod.splits sum.splits dest!: reads_read_file)

lemma reads_iterdir: "iterdir env p w = (r, w') \<Longrightarrow> reads w' = reads w"
  by (auto simp: iterdir_def split: prod.splits fault.splits dest!: reads_os_call)

lemma reads_unlink: "unlink env p w = (r, w') \<Longrightarrow> reads w' = reads w"
  by (auto simp: unlink_def split: prod.splits fault.splits dest!: reads_os_call)

lemma reads_rmdir: "rmdir env p w = (r, w') \<Longrightarrow> reads w' = reads w"
  by (auto simp: rmdir_def split: prod.splits fault.splits dest!: reads_os_call)

lemma reads_write_loop:
  "write_loop env p fsize written rng hasher w = (r, w') \<Longrightarrow> reads w' = reads w"
proof (induction env p fsize written rng hasher w rule: write_loop.induct)
  case (1 env p fsize written rng hasher w)
  show ?case
  proof (cases "written < fsize")
    case False
    then show ?thesis using "1.prems"
      by (subst (asm) write_loop.simps) (simp add: planned_content.simps)
  next
    case True
    obtain chunk rng' where rb: "randbytes env rng (nat (min WRITE_CHUNK_BYTES (fsize - written))) = (chunk, rng')"
      by (cases "randbytes env rng (nat (min WRITE_CHUNK_BYTES (fsize - written)))")
    obtain e w1 where wc: "write_chunk env p chunk w = (e, w1)"
      by (cases "write_chunk env p chunk w")
    have f1: "reads w1 = reads w" using wc by (rule reads_write_chunk)
    show ?thesis
    proof (cases e)
      case (Some msg)
      then show ?thesis using "1.prems" True rb wc f1
        by (subst (asm) write_loop.simps) simp
    next
      case None
      then have "write_loop env p fsize (written + min WRITE_CHUNK_BYTES (fsize - written)) rng'
                   (hasher @ chunk) w1 = (r, w')"
        using "1.prems" True rb wc by (subst (asm) write_loop.simps) simp
      then have "reads w' = reads w1" using "1.IH" [OF True rb [symmetric] _ _ ] wc None by simp
      then show ?thesis using f1 by simp
    qed
  qed
qed

lemma reads_write_batch: "write_batch env p i fsize w = (r, w') \<Longrightarrow> reads w' = reads w"
  by (auto simp: write_batch_def split: prod.splits option.splits sum.splits
           dest!: reads_open_wb reads_write_loop)

lemma frame_write_batch: "write_batch env p i fsize w = (r, w') \<Longrightarrow> frame w w'"
  by (auto simp: write_batch_def split: prod.splits option.splits sum.splits
           dest: frame_open_wb frame_write_loop intro: frame_trans)

subsection \<open>One batch\<close>

lemma frame_verify_batch: "verify_batch env fm tp i fsize vd w = (out, w') \<Longrightarrow> frame w w'"
  unfolding verify_batch_def
  by (auto split: prod.splits sum.splits if_splits
           dest!: frame_write_batch frame_hash_file intro: frame_trans)

lemma verify_batch_cases:
  assumes vb: "verify_batch env fm tp i fsize vd w = (out, w')"
  obtains
    (io) r where "out = Inl r" "verification_details r = vd" "\<not> passed r" "aborted r = None"
  | (first) r h1 where "out = Inl r" "\<not> passed r" "aborted r = None"
      "verification_details r = vd @ [\<lparr>batch = i + 1, expected_hash = planned_hash env i fsize,
          read1_hash = h1, read2_hash = None, match = False\<rparr>]"
      "h1 \<noteq> planned_hash env i fsize"
      "details r = ''Hash mismatch on batch '' @ str_int (i + 1) @ '' (first read).''"
      "reads w' = reads w + 1"
  | (second) r h2 where "out = Inl r" "\<not> passed r" "aborted r = None"
      "verification_details r = vd @ [\<lparr>batch = i + 1, expected_hash = planned_hash env i fsize,
          read1_hash = planned_hash env i fsize, read2_hash = Some h2, match = False\<rparr>]"
      "h2 \<noteq> planned_hash env i fsize"
      "details r = ''Hash mismatch on batch '' @ str_int (i + 1) @ '' (second read).''"
      "reads w' = reads w + 2"
  | (ok) "out = Inr (vd @ [\<lparr>batch = i + 1, expected_hash = planned_hash env i fsize,
          read1_hash = planned_hash env i fsize,
          read2_hash = Some (planned_hash env i fsize), match = True\<rparr>])"
      "reads w' = reads w + 2"
proof -
  obtain wr w1 where wb: "write_batch env (test_file tp i) i fsize w = (wr, w1)"
    by (cases "write_batch env (test_file tp i) i fsize w")
  have rw1: "reads w1 = reads w" using wb by (rule reads_write_batch)
  show thesis
  proof (cases wr)
    case (Inl e)
    then show thesis using vb wb io by (auto simp: verify_batch_def failure_def)
  next
    case (Inr expected)
    then have ex: "expected = planned_hash env i fsize" using wb write_batch_hash by blast
    obtain r1 w2 where h1: "hash_file_chunked env (test_file tp i) (nat WRITE_CHUNK_BYTES) w1 = (r1, w2)"
      by (cases "hash_file_chunked env (test_file tp i) (nat WRITE_CHUNK_BYTES) w1")
    have rw2: "reads w2 = reads w + 1" using reads_hash_file [OF h1] rw1 by simp
    show thesis
    proof (cases r1)
      case (Inl e)
      then show thesis using vb wb Inr h1 io by (auto simp: verify_batch_def failure_def)
    next
      case r1: (Inr a)
      show thesis
      proof (cases "a = expected")
        case False
        then show thesis using vb wb Inr h1 r1 ex rw2 first [of _ a]
          by (auto simp: verify_batch_def failure_def)
      next
        case True
        obtain r2 w3 where h2: "hash_file_chunked env (test_file tp i) (nat WRITE_CHUNK_BYTES) w2 = (r2, w3)"
          by (cases "hash_file_chunked env (test_file tp i) (nat WRITE_CHUNK_BYTES) w2")
        have rw3: "reads w3 = reads w + 2" using reads_hash_file [OF h2] rw2 by simp
        show thesis
        proof (cases r2)
          case (Inl e)
          then show thesis using vb wb Inr h1 r1 True h2 io
            by (auto simp: verify_batch_def failure_def)
        next
          case r2: (Inr b)
          show thesis
          proof (cases "b = expected")
            case False
            then show thesis using vb wb Inr h1 r1 True h2 r2 ex rw3 second [of _ b]
              by (auto simp: verify_batch_def failure_def)
          next
            case b: True
            then show thesis using vb wb Inr h1 r1 True h2 r2 ex rw3 ok
              by (auto simp: verify_batch_def failure_def)
          qed
        qed
      qed
    qed
  qed
qed

subsection \<open>The loop over the batches\<close>

lemma message_verify_batch:
  "verify_batch env fm tp i fsize vd w = (Inl r, w') \<Longrightarrow> message r = fm"
  unfolding verify_batch_def
  by (auto simp: failure_def split: prod.splits sum.splits if_splits)

lemma reads_verify_batch_le:
  "verify_batch env fm tp i fsize vd w = (out, w') \<Longrightarrow> reads w \<le> reads w'"
  unfolding verify_batch_def
  by (auto split: prod.splits sum.splits if_splits dest!: reads_write_batch reads_hash_file)

lemma ending_ok_step:
  assumes "ending_ok e fm d n new" and "passed_record rec"
  shows "ending_ok e fm (d + 2) (Suc n) (rec # new)"
proof (cases e)
  case (Finished vd)
  then show ?thesis using assms by simp
next
  case (AbortedAt vd)
  then show ?thesis using assms by simp
next
  case (Returned r)
  have base: "\<not> passed r \<and> aborted r = None \<and> message r = fm" using assms Returned by simp
  consider (a) "list_all passed_record new"
    | (b) good rec' where "new = good @ [rec']" "list_all passed_record good" "\<not> match rec'"
        "(read1_hash rec' \<noteq> expected_hash rec' \<and> read2_hash rec' = None
            \<and> details r = ''Hash mismatch on batch '' @ str_int (batch rec') @ '' (first read).''
            \<and> d = 2 * length good + 1)
           \<or> (read1_hash rec' = expected_hash rec' \<and> read2_hash rec' \<noteq> None
               \<and> read2_hash rec' \<noteq> Some (expected_hash rec')
               \<and> details r = ''Hash mismatch on batch '' @ str_int (batch rec') @ '' (second read).''
               \<and> d = 2 * length good + 2)"
    using assms(1) Returned by auto
  then show ?thesis
  proof cases
    case a
    then show ?thesis using base assms(2) Returned by simp
  next
    case b
    have "rec # new = (rec # good) @ [rec']" using b(1) by simp
    moreover have "list_all passed_record (rec # good)" using b(2) assms(2) by simp
    moreover have "(read1_hash rec' \<noteq> expected_hash rec' \<and> read2_hash rec' = None
            \<and> details r = ''Hash mismatch on batch '' @ str_int (batch rec') @ '' (first read).''
            \<and> d + 2 = 2 * length (rec # good) + 1)
           \<or> (read1_hash rec' = expected_hash rec' \<and> read2_hash rec' \<noteq> None
               \<and> read2_hash rec' \<noteq> Some (expected_hash rec')
               \<and> details r = ''Hash mismatch on batch '' @ str_int (batch rec') @ '' (second read).''
               \<and> d + 2 = 2 * length (rec # good) + 2)"
      using b(4) by auto
    ultimately have "\<exists>good' rec''. rec # new = good' @ [rec''] \<and> list_all passed_record good'
        \<and> \<not> match rec'' \<and>
          ((read1_hash rec'' \<noteq> expected_hash rec'' \<and> read2_hash rec'' = None
            \<and> details r = ''Hash mismatch on batch '' @ str_int (batch rec'') @ '' (first read).''
            \<and> d + 2 = 2 * length good' + 1)
           \<or> (read1_hash rec'' = expected_hash rec'' \<and> read2_hash rec'' \<noteq> None
               \<and> read2_hash rec'' \<noteq> Some (expected_hash rec'')
               \<and> details r = ''Hash mismatch on batch '' @ str_int (batch rec'') @ '' (second read).''
               \<and> d + 2 = 2 * length good' + 2))"
      using b(3) by blast
    then show ?thesis using base Returned by (simp only: ending_ok.simps) blast
  qed
qed

lemma batch_loop_spec:
  "batch_loop env fm tp bs i vd w = (e, w') \<Longrightarrow>
   \<exists>new. records_of e = vd @ new \<and> length new \<le> length bs
     \<and> (\<forall>k < length new. batch (new ! k) = i + int k + 1
            \<and> expected_hash (new ! k) = planned_hash env (i + int k) (bs ! k))
     \<and> ending_ok e fm (reads w' - reads w) (length bs) new \<and> reads w \<le> reads w'"
proof (induction bs arbitrary: i vd w)
  case Nil
  then show ?case by auto
next
  case (Cons fsize rest)
  obtain b w1 where pa: "poll_abort env w = (b, w1)" by (cases "poll_abort env w")
  have r1: "reads w1 = reads w" using pa by (rule reads_poll_abort)
  show ?case
  proof (cases b)
    case True
    then have "e = AbortedAt vd" "w' = w1" using Cons.prems pa by auto
    then show ?thesis using r1 by auto
  next
    case False
    obtain out w2 where vb: "verify_batch env fm tp i fsize vd w1 = (out, w2)"
      by (cases "verify_batch env fm tp i fsize vd w1")
    from vb show ?thesis
    proof (cases rule: verify_batch_cases)
      case (io r)
      then have e: "e = Returned r" "w' = w2" using Cons.prems pa False vb by auto
      have "message r = fm" using vb io(1) message_verify_batch by blast
      moreover have "reads w1 \<le> reads w2" using vb by (rule reads_verify_batch_le)
      ultimately show ?thesis using e io r1 by (intro exI [of _ "[]"]) auto
    next
      case (first r h1)
      then have e: "e = Returned r" "w' = w2" using Cons.prems pa False vb by auto
      have m: "message r = fm" using vb first(1) message_verify_batch by blast
      let ?rec = "\<lparr>batch = i + 1, expected_hash = planned_hash env i fsize,
          read1_hash = h1, read2_hash = None, match = False\<rparr>"
      have "ending_ok e fm (reads w' - reads w) (length (fsize # rest)) [?rec]"
        using e first m r1 by (auto intro!: exI [of _ "[]"])
      then show ?thesis using e first r1 by (intro exI [of _ "[?rec]"]) auto
    next
      case (second r h2)
      then have e: "e = Returned r" "w' = w2" using Cons.prems pa False vb by auto
      have m: "message r = fm" using vb second(1) message_verify_batch by blast
      let ?rec = "\<lparr>batch = i + 1, expected_hash = planned_hash env i fsize,
          read1_hash = planned_hash env i fsize, read2_hash = Some h2, match = False\<rparr>"
      have "ending_ok e fm (reads w' - reads w) (length (fsize # rest)) [?rec]"
        using e second m r1 by (auto intro!: exI [of _ "[]"])
      then show ?thesis using e second r1 by (intro exI [of _ "[?rec]"]) auto
    next
      case ok
      let ?rec = "\<lparr>batch = i + 1, expected_hash = planned_hash env i fsize,
          read1_hash = planned_hash env i fsize,
          read2_hash = Some (planned_hash env i fsize), match = True\<rparr>"
      have next_run: "batch_loop env fm tp rest (i + 1) (vd @ [?rec]) w2 = (e, w')"
        using Cons.prems pa False vb ok(1) by simp
      from Cons.IH [OF next_run] obtain new where
        n1: "records_of e = (vd @ [?rec]) @ new" and n2: "length new \<le> length rest"
        and n3: "\<forall>k < length new. batch (new ! k) = i + 1 + int k + 1
            \<and> expected_hash (new ! k) = planned_hash env (i + 1 + int k) (rest ! k)"
        and n4: "ending_ok e fm (reads w' - reads w2) (length rest) new"
        and n5: "reads w2 \<le> reads w'"
        by blast
      have pr: "passed_record ?rec" by (simp add: passed_record_def)
      have d: "reads w' - reads w = (reads w' - reads w2) + 2" using ok(2) r1 n5 by simp
      have e4: "ending_ok e fm (reads w' - reads w) (length (fsize # rest)) (?rec # new)"
        using ending_ok_step [OF n4 pr] d by simp
      have e3: "\<forall>k < length (?rec # new). batch ((?rec # new) ! k) = i + int k + 1
            \<and> expected_hash ((?rec # new) ! k) = planned_hash env (i + int k) ((fsize # rest) ! k)"
      proof (intro allI impI)
        fix k assume k: "k < length (?rec # new)"
        show "batch ((?rec # new) ! k) = i + int k + 1
            \<and> expected_hash ((?rec # new) ! k) = planned_hash env (i + int k) ((fsize # rest) ! k)"
        proof (cases k)
          case 0
          then show ?thesis by simp
        next
          case (Suc j)
          then have "j < length new" using k by simp
          then have "batch (new ! j) = i + 1 + int j + 1
            \<and> expected_hash (new ! j) = planned_hash env (i + 1 + int j) (rest ! j)"
            using n3 by blast
          moreover have "i + 1 + int j = i + int (Suc j)" by simp
          ultimately show ?thesis using Suc by simp
        qed
      qed
      show ?thesis
        using n1 n2 e3 e4 ok(2) r1 n5 by (intro exI [of _ "?rec # new"]) auto
    qed
  qed
qed

subsection \<open>The ways a check runs\<close>

lemma free_space_sweep_cases:
  assumes run: "free_space_sweep env w = Some (r, w')"
  obtains
    (small) "max 0 (disk_free w - SAFETY_MARGIN_BYTES) < 1024" "w' = w"
      "r = failure ''Free-space sweep failed''
             ''Not enough free space (need at least 100 MB free).'' []"
  | (nodir) tp msg where "1024 \<le> max 0 (disk_free w - SAFETY_MARGIN_BYTES)"
      "mkdir env tp w = (Some msg, w')"
      "r = failure ''Free-space sweep failed'' (''Could not create test directory: '' @ msg) []"
  | (ran) tp w1 e w2 where "1024 \<le> max 0 (disk_free w - SAFETY_MARGIN_BYTES)"
      "mkdir env tp w = (None, w1)"
      "batch_loop env ''Free-space sweep failed'' tp
         (batch_list MAX_FILE_BYTES (max 0 (disk_free w - SAFETY_MARGIN_BYTES))) 0 [] w1 = (e, w2)"
      "w' = cleanup env tp w2"
      "r = (case e of
              Returned r' \<Rightarrow> r'
            | AbortedAt vd \<Rightarrow>
                free_space_aborted
                  (batch_list MAX_FILE_BYTES (max 0 (disk_free w - SAFETY_MARGIN_BYTES)))
                  (max 0 (disk_free w - SAFETY_MARGIN_BYTES)) vd
            | Finished vd \<Rightarrow>
                success ''Free-space sweep passed''
                  (batch_list MAX_FILE_BYTES (max 0 (disk_free w - SAFETY_MARGIN_BYTES)))
                  (max 0 (disk_free w - SAFETY_MARGIN_BYTES)) vd)"
proof (cases "max 0 (disk_free w - SAFETY_MARGIN_BYTES) < 1024")
  case True
  then have "w' = w \<and> r = failure ''Free-space sweep failed''
             ''Not enough free space (need at least 100 MB free).'' []"
    using run by (auto simp: free_space_sweep_def get_drive_usage_def)
  then show thesis using True small by blast
next
  case False
  let ?u = "max 0 (disk_free w - SAFETY_MARGIN_BYTES)"
  let ?tp = "''SentinelSweep_'' @ strftime env (clock w) @ ''_'' @ token_hex env (steps w)"
  have pb: "plan_batches MAX_FILE_BYTES ?u [] = Some (batch_list MAX_FILE_BYTES ?u)"
    by (rule plan_batches_MAX) simp
  obtain mr w1 where mk: "mkdir env ?tp w = (mr, w1)" by (cases "mkdir env ?tp w")
  show thesis
  proof (cases mr)
    case (Some msg)
    then have "Some (failure ''Free-space sweep failed''
        (''Could not create test directory: '' @ msg) [], w1) = Some (r, w')"
      using run
      by (simp only: free_space_sweep_def get_drive_usage_def prod.case False if_False pb
            option.case mk)
    then have "w' = w1 \<and> r = failure ''Free-space sweep failed''
        (''Could not create test directory: '' @ msg) []"
      by (simp only: option.inject prod.inject)
    moreover have "1024 \<le> ?u" using False by linarith
    moreover have "mkdir env ?tp w = (Some msg, w1)" using mk Some by (simp only:)
    ultimately show thesis using nodir [of ?tp msg] by blast
  next
    case None
    obtain e w2 where bl: "batch_loop env ''Free-space sweep failed'' ?tp
         (batch_list MAX_FILE_BYTES ?u) 0 [] w1 = (e, w2)"
      by (cases "batch_loop env ''Free-space sweep failed'' ?tp
         (batch_list MAX_FILE_BYTES ?u) 0 [] w1")
    have "1024 \<le> ?u" using False by linarith
    moreover have "mkdir env ?tp w = (None, w1)" using mk None by (simp only:)
    moreover have "Some (case e of
              Returned r' \<Rightarrow> r'
            | AbortedAt vd \<Rightarrow> free_space_aborted (batch_list MAX_FILE_BYTES ?u) ?u vd
            | Finished vd \<Rightarrow> success ''Free-space sweep passed'' (batch_list MAX_FILE_BYTES ?u) ?u vd,
            cleanup env ?tp w2) = Some (r, w')"
      using run
      by (simp only: free_space_sweep_def get_drive_usage_def prod.case False if_False pb
            option.case mk None bl)
    then have "w' = cleanup env ?tp w2 \<and> r = (case e of
              Returned r' \<Rightarrow> r'
            | AbortedAt vd \<Rightarrow> free_space_aborted (batch_list MAX_FILE_BYTES ?u) ?u vd
            | Finished vd \<Rightarrow> success ''Free-space sweep passed'' (batch_list MAX_FILE_BYTES ?u) ?u vd)"
      by (simp only: option.inject prod.inject)
    ultimately show thesis using ran [of ?tp w1 e w2] bl by blast
  qed
qed

lemma quick_check_cases:
  assumes run: "quick_check env target_bytes w = Some (r, w')"
  obtains
    (small) "min target_bytes (max 0 (disk_free w - SAFETY_MARGIN_BYTES)) < 1024" "w' = w"
      "r = failure ''Integrity check failed''
             ''Not enough free space for check (need at least 100 MB free).'' []"
  | (nodir) tp msg where "1024 \<le> min target_bytes (max 0 (disk_free w - SAFETY_MARGIN_BYTES))"
      "mkdir env tp w = (Some msg, w')"
      "r = failure ''Integrity check failed'' (''Could not create test directory: '' @ msg) []"
  | (ran) tp w1 e w2 where "1024 \<le> min target_bytes (max 0 (disk_free w - SAFETY_MARGIN_BYTES))"
      "mkdir env tp w = (None, w1)"
      "batch_loop env ''Integrity check failed'' tp
         (batch_list MAX_FILE_BYTES (min target_bytes (max 0 (disk_free w - SAFETY_MARGIN_BYTES))))
         0 [] w1 = (e, w2)"
      "w' = cleanup env tp w2"
      "r = (case e of
              Returned r' \<Rightarrow> r'
            | AbortedAt vd \<Rightarrow>
                quick_check_aborted
                  (batch_list MAX_FILE_BYTES
                     (min target_bytes (max 0 (disk_free w - SAFETY_MARGIN_BYTES))))
                  (min target_bytes (max 0 (disk_free w - SAFETY_MARGIN_BYTES))) vd
            | Finished vd \<Rightarrow>
                success ''Integrity check passed''
                  (batch_list MAX_FILE_BYTES
                     (min target_bytes (max 0 (disk_free w - SAFETY_MARGIN_BYTES))))
                  (min target_bytes (max 0 (disk_free w - SAFETY_MARGIN_BYTES))) vd)"
proof (cases "min target_bytes (max 0 (disk_free w - SAFETY_MARGIN_BYTES)) < 1024")
  case True
  then have "w' = w \<and> r = failure ''Integrity check failed''
             ''Not enough free space for check (need at least 100 MB free).'' []"
    using run by (auto simp: quick_check_def get_drive_usage_def)
  then show thesis using True small by blast
next
  case False
  let ?u = "min target_bytes (max 0 (disk_free w - SAFETY_MARGIN_BYTES))"
  let ?tp = "''SentinelCheck_'' @ strftime env (clock w) @ ''_'' @ token_hex env (steps w)"
  have "0 \<le> ?u" using False by linarith
  then have pb: "plan_batches MAX_FILE_BYTES ?u [] = Some (batch_list MAX_FILE_BYTES ?u)"
    by (rule plan_batches_MAX)
  obtain mr w1 where mk: "mkdir env ?tp w = (mr, w1)" by (cases "mkdir env ?tp w")
  show thesis
  proof (cases mr)
    case (Some msg)
    then have "Some (failure ''Integrity check failed''
        (''Could not create test directory: '' @ msg) [], w1) = Some (r, w')"
      using run
      by (simp only: quick_check_def get_drive_usage_def prod.case False if_False pb
            option.case mk)
    then have "w' = w1 \<and> r = failure ''Integrity check failed''
        (''Could not create test directory: '' @ msg) []"
      by (simp only: option.inject prod.inject)
    moreover have "1024 \<le> ?u" using False by linarith
    moreover have "mkdir env ?tp w = (Some msg, w1)" using mk Some by (simp only:)
    ultimately show thesis using nodir [of ?tp msg] by blast
  next
    case None
    obtain e w2 where bl: "batch_loop env ''Integrity check failed'' ?tp
         (batch_list MAX_FILE_BYTES ?u) 0 [] w1 = (e, w2)"
      by (cases "batch_loop env ''Integrity check failed'' ?tp
         (batch_list MAX_FILE_BYTES ?u) 0 [] w1")
    have "1024 \<le> ?u" using False by linarith
    moreover have "mkdir env ?tp w = (None, w1)" using mk None by (simp only:)
    moreover have "Some (case e of
              Returned r' \<Rightarrow> r'
            | AbortedAt vd \<Rightarrow> quick_check_aborted (batch_list MAX_FILE_BYTES ?u) ?u vd
            | Finished vd \<Rightarrow> success ''Integrity check passed'' (batch_list MAX_FILE_BYTES ?u) ?u vd,
            cleanup env ?tp w2) = Some (r, w')"
      using run
      by (simp only: quick_check_def get_drive_usage_def prod.case False if_False pb
            option.case mk None bl)
    then have "w' = cleanup env ?tp w2 \<and> r = (case e of
              Returned r' \<Rightarrow> r'
            | AbortedAt vd \<Rightarrow> quick_check_aborted (batch_list MAX_FILE_BYTES ?u) ?u vd
            | Finished vd \<Rightarrow> success ''Integrity check passed'' (batch_list MAX_FILE_BYTES ?u) ?u vd)"
      by (simp only: option.inject prod.inject)
    ultimately show thesis using ran [of ?tp w1 e w2] bl by blast
  qed
qed

lemma reads_unlink_all: "unlink_all env ps w = (b, w') \<Longrightarrow> reads w' = reads w"
proof (induction ps arbitrary: w)
  case Nil
  then show ?case by simp
next
  case (Cons p ps)
  obtain r w1 where u: "unlink env p w = (r, w1)" by (cases "unlink env p w")
  have "reads w1 = reads w" using u by (rule reads_unlink)
  then show ?case using Cons u by (cases r) auto
qed

lemma reads_cleanup: "reads (cleanup env tp w) = reads w"
proof -
  obtain r w1 where i: "iterdir env tp w = (r, w1)" by (cases "iterdir env tp w")
  have r1: "reads w1 = reads w" using i by (rule reads_iterdir)
  show ?thesis
  proof (cases r)
    case (Inl e)
    then show ?thesis using i r1 by (simp add: cleanup_def)
  next
    case (Inr entries)
    obtain b w2 where u: "unlink_all env entries w1 = (b, w2)"
      by (cases "unlink_all env entries w1")
    have r2: "reads w2 = reads w" using reads_unlink_all [OF u] r1 by simp
    obtain x w3 where rd: "rmdir env tp w2 = (x, w3)" by (cases "rmdir env tp w2")
    have "reads w3 = reads w" using reads_rmdir [OF rd] r2 by simp
    then show ?thesis using i Inr u r2 rd by (cases b) (simp_all add: cleanup_def)
  qed
qed

text \<open>What either check returns, by how its loop ended.\<close>

lemma check_run:
  assumes "free_space_sweep env w = Some (r, w') \<or> quick_check env target_bytes w = Some (r, w')"
  obtains
    (early) "verification_details r = []" "\<not> passed r" "aborted r = None"
  | (looped) fm tp bs size e w1 w2 where
      "batch_loop env fm tp bs 0 [] w1 = (e, w2)" "reads w1 = reads w" "reads w' = reads w2"
      "1024 \<le> size" "bs = batch_list MAX_FILE_BYTES size"
      "case e of
         Returned r' \<Rightarrow> r = r'
       | AbortedAt vd \<Rightarrow> r = free_space_aborted bs size vd \<or> r = quick_check_aborted bs size vd
       | Finished vd \<Rightarrow> (\<exists>msg. r = success msg bs size vd)"
  using assms
proof
  assume "free_space_sweep env w = Some (r, w')"
  then show thesis
  proof (cases rule: free_space_sweep_cases)
    case small
    then show ?thesis using early by (simp add: failure_def)
  next
    case (nodir tp msg)
    then show ?thesis using early by (simp add: failure_def)
  next
    case (ran tp w1 e w2)
    have "reads w1 = reads w" using ran(2) by (rule reads_mkdir)
    moreover have "reads w' = reads w2" using ran(4) by (simp add: reads_cleanup)
    moreover have "case e of
         Returned r' \<Rightarrow> r = r'
       | AbortedAt vd \<Rightarrow> r = free_space_aborted (batch_list MAX_FILE_BYTES (max 0 (disk_free w - SAFETY_MARGIN_BYTES))) (max 0 (disk_free w - SAFETY_MARGIN_BYTES)) vd \<or> r = quick_check_aborted (batch_list MAX_FILE_BYTES (max 0 (disk_free w - SAFETY_MARGIN_BYTES))) (max 0 (disk_free w - SAFETY_MARGIN_BYTES)) vd
       | Finished vd \<Rightarrow> (\<exists>msg. r = success msg (batch_list MAX_FILE_BYTES (max 0 (disk_free w - SAFETY_MARGIN_BYTES))) (max 0 (disk_free w - SAFETY_MARGIN_BYTES)) vd)"
      using ran(5) by (cases e) auto
    ultimately show ?thesis using ran(1,3) looped by blast
  qed
next
  assume "quick_check env target_bytes w = Some (r, w')"
  then show thesis
  proof (cases rule: quick_check_cases)
    case small
    then show ?thesis using early by (simp add: failure_def)
  next
    case (nodir tp msg)
    then show ?thesis using early by (simp add: failure_def)
  next
    case (ran tp w1 e w2)
    let ?s = "min target_bytes (max 0 (disk_free w - SAFETY_MARGIN_BYTES))"
    have "reads w1 = reads w" using ran(2) by (rule reads_mkdir)
    moreover have "reads w' = reads w2" using ran(4) by (simp add: reads_cleanup)
    moreover have "case e of
         Returned r' \<Rightarrow> r = r'
       | AbortedAt vd \<Rightarrow> r = free_space_aborted (batch_list MAX_FILE_BYTES ?s) ?s vd \<or> r = quick_check_aborted (batch_list MAX_FILE_BYTES ?s) ?s vd
       | Finished vd \<Rightarrow> (\<exists>msg. r = success msg (batch_list MAX_FILE_BYTES ?s) ?s vd)"
      using ran(5) by (cases e) auto
    ultimately show ?thesis using ran(1,3) looped by blast
  qed
qed

subsection \<open>Evaluating the examples\<close>

lemma demo_env_simps [simp]:
  "sha256_hex (demo_env f a) = (\<lambda>bs. str_nat (length bs))"
  "Random (demo_env f a) = nat"
  "randbytes (demo_env f a) = (\<lambda>g n. (replicate n (of_nat g), Suc g))"
  "strftime (demo_env f a) = (\<lambda>t. ''20240101_120000'')"
  "token_hex (demo_env f a) = (\<lambda>n. ''0a1b2c3d'')"
  "fault_at (demo_env f a) = f"
  "tick (demo_env f a) = (\<lambda>n. 1)"
  "abort_check (demo_env f a) = a"
  by (simp_all add: demo_env_def)

lemma plan_1024: "plan_batches MAX_FILE_BYTES 1024 [] = Some [1024]"
  using plan_batches_MAX [of 1024] by (simp add: batch_list_def MAX_FILE_BYTES_def)

lemma usable_1024:
  "max 0 (disk_free (demo_world 104858624) - SAFETY_MARGIN_BYTES) = 1024"
  by (simp add: demo_world_def SAFETY_MARGIN_BYTES_def)

lemmas run_simps = get_drive_usage_def mkdir_def os_call_def path_exists_def poll_abort_def
  verify_batch_def write_batch_def open_wb_def write_loop.simps write_chunk_def
  hash_file_chunked_def read_file_def read_loop_all test_file_def str_int_def str_nat.simps
  digit_char_def cleanup_def iterdir_def startswith_def unlink_def rmdir_def
  WRITE_CHUNK_BYTES_def

subsection \<open>Insufficient space, aborted results, the first reread, the expected hash\<close>

text \<open>
  C7. When the free space less the safety margin, clamped at 0, is below 1024 bytes,
  \<^verbatim>\<open>free_space_sweep\<close> returns the failure with \<^verbatim>\<open>passed\<close> false and its message, and
  so does \<^verbatim>\<open>quick_check\<close> when its planned size is below 1024 bytes; the world
  returned is the world given, so no directory was made and no file written.
\<close>

theorem insufficient_space:
  "(max 0 (disk_free w - SAFETY_MARGIN_BYTES) < 1024 \<longrightarrow>
      (\<exists>r. free_space_sweep env w = Some (r, w) \<and> \<not> passed r \<and> aborted r = None
         \<and> message r = ''Free-space sweep failed''
         \<and> details r = ''Not enough free space (need at least 100 MB free).''
         \<and> verification_details r = []))
   \<and> (min target_bytes (max 0 (disk_free w - SAFETY_MARGIN_BYTES)) < 1024 \<longrightarrow>
      (\<exists>r. quick_check env target_bytes w = Some (r, w) \<and> \<not> passed r \<and> aborted r = None
         \<and> message r = ''Integrity check failed''
         \<and> details r = ''Not enough free space for check (need at least 100 MB free).''
         \<and> verification_details r = []))"
  by (simp add: free_space_sweep_def quick_check_def get_drive_usage_def failure_def)

theorem insufficient_space_witness:
  "max 0 (disk_free (demo_world (50 * 1024 * 1024)) - SAFETY_MARGIN_BYTES) < 1024
   \<and> min (3 * 1024 * 1024 * 1024)
        (max 0 (disk_free (demo_world (50 * 1024 * 1024)) - SAFETY_MARGIN_BYTES)) < 1024
   \<and> (\<exists>r. free_space_sweep (demo_env (\<lambda>n. NoFault) None) (demo_world (50 * 1024 * 1024))
             = Some (r, demo_world (50 * 1024 * 1024)) \<and> \<not> passed r)
   \<and> (\<exists>r. quick_check (demo_env (\<lambda>n. NoFault) None) (3 * 1024 * 1024 * 1024)
             (demo_world (50 * 1024 * 1024))
             = Some (r, demo_world (50 * 1024 * 1024)) \<and> \<not> passed r)"
proof -
  have a: "max 0 (disk_free (demo_world (50 * 1024 * 1024)) - SAFETY_MARGIN_BYTES) < 1024"
    by (simp add: demo_world_def SAFETY_MARGIN_BYTES_def)
  have b: "min (3 * 1024 * 1024 * 1024)
        (max 0 (disk_free (demo_world (50 * 1024 * 1024)) - SAFETY_MARGIN_BYTES)) < 1024"
    by (simp add: demo_world_def SAFETY_MARGIN_BYTES_def)
  show ?thesis
    using a b insufficient_space [of "demo_world (50 * 1024 * 1024)"
        "demo_env (\<lambda>n. NoFault) None" "3 * 1024 * 1024 * 1024"]
    by blast
qed

text \<open>
  C10. An aborted partial result of \<^verbatim>\<open>quick_check\<close> or \<^verbatim>\<open>free_space_sweep\<close> has
  \<^verbatim>\<open>match\<close> true in every record of its \<^verbatim>\<open>verification_details\<close>, and its
  \<^verbatim>\<open>passed\<close> is true.
\<close>

theorem aborted_result_all_match:
  assumes "free_space_sweep env w = Some (r, w') \<or> quick_check env target_bytes w = Some (r, w')"
    and "aborted r \<noteq> None"
  shows "passed r \<and> (\<forall>v \<in> set (verification_details r). match v)"
  using assms(1)
proof (cases rule: check_run)
  case early
  then show ?thesis using assms(2) by simp
next
  case (looped fm tp bs size e w1 w2)
  from batch_loop_spec [OF looped(1)] obtain new where
    n: "records_of e = new" and ok: "ending_ok e fm (reads w2 - reads w1) (length bs) new"
    by auto
  show ?thesis
  proof (cases e)
    case (Finished vd)
    then show ?thesis using looped(6) assms(2) by (auto simp: success_def)
  next
    case (Returned r')
    then show ?thesis using looped(6) ok assms(2) by simp
  next
    case (AbortedAt vd)
    then have "list_all passed_record vd" using n ok by simp
    then have all: "list_all match vd"
      by (simp add: list_all_iff passed_record_def)
    have "verification_details r = vd \<and> passed r = all_match vd"
      using looped(6) AbortedAt
      by (auto simp: free_space_aborted_def quick_check_aborted_def)
    then show ?thesis using all by (simp add: all_match_def list_all_iff)
  qed
qed




lemma usable_2048:
  "max 0 (disk_free (demo_world 104859648) - SAFETY_MARGIN_BYTES) = 2048"
  by (simp add: demo_world_def SAFETY_MARGIN_BYTES_def)

lemma plan_2048: "plan_batches MAX_FILE_BYTES 2048 [] = Some [2048]"
  using plan_batches_MAX [of 2048] by (simp add: batch_list_def MAX_FILE_BYTES_def)

lemma healthy_run_1024:
  "\<exists>r w'. free_space_sweep (demo_env (\<lambda>n. NoFault) None) (demo_world 104858624) = Some (r, w')
     \<and> passed r
     \<and> verification_details r =
          [\<lparr>batch = 1, expected_hash = ''1024'', read1_hash = ''1024'',
            read2_hash = Some ''1024'', match = True\<rparr>]
     \<and> trace w' =
          [EvMkdir ''SentinelSweep_20240101_120000_0a1b2c3d'',
           EvOpenW ''SentinelSweep_20240101_120000_0a1b2c3d/test_0.bin'',
           EvWrite ''SentinelSweep_20240101_120000_0a1b2c3d/test_0.bin'' 1024,
           EvRead ''SentinelSweep_20240101_120000_0a1b2c3d/test_0.bin'',
           EvRead ''SentinelSweep_20240101_120000_0a1b2c3d/test_0.bin'',
           EvIterdir ''SentinelSweep_20240101_120000_0a1b2c3d'',
           EvUnlink ''SentinelSweep_20240101_120000_0a1b2c3d/test_0.bin'',
           EvRmdir ''SentinelSweep_20240101_120000_0a1b2c3d'']"
  unfolding free_space_sweep_def get_drive_usage_def prod.case usable_1024
  by (simp add: plan_1024 demo_world_def run_simps success_def)

lemma healthy_run_2048:
  "\<exists>r w'. free_space_sweep (demo_env (\<lambda>n. NoFault) None) (demo_world 104859648) = Some (r, w')
     \<and> passed r
     \<and> verification_details r =
          [\<lparr>batch = 1, expected_hash = ''2048'', read1_hash = ''2048'',
            read2_hash = Some ''2048'', match = True\<rparr>]
     \<and> trace w' =
          [EvMkdir ''SentinelSweep_20240101_120000_0a1b2c3d'',
           EvOpenW ''SentinelSweep_20240101_120000_0a1b2c3d/test_0.bin'',
           EvWrite ''SentinelSweep_20240101_120000_0a1b2c3d/test_0.bin'' 2048,
           EvRead ''SentinelSweep_20240101_120000_0a1b2c3d/test_0.bin'',
           EvRead ''SentinelSweep_20240101_120000_0a1b2c3d/test_0.bin'',
           EvIterdir ''SentinelSweep_20240101_120000_0a1b2c3d'',
           EvUnlink ''SentinelSweep_20240101_120000_0a1b2c3d/test_0.bin'',
           EvRmdir ''SentinelSweep_20240101_120000_0a1b2c3d'']"
  unfolding free_space_sweep_def get_drive_usage_def prod.case usable_2048
  by (simp add: plan_2048 demo_world_def run_simps success_def)

text \<open>
  C5. Two batches of the same index do not have the same content and expected hash
  whatever their sizes: on the example drive the batch of index 0 is written as 1024
  bytes with expected hash \<open>''1024''\<close> when 1024 bytes are usable, and as 2048 bytes
  with expected hash \<open>''2048''\<close> when 2048 bytes are usable.
\<close>

theorem expected_hash_depends_on_size:
  "\<not> (\<forall>r1 w1 r2 w2 v1 v2.
        free_space_sweep (demo_env (\<lambda>n. NoFault) None) (demo_world 104858624) = Some (r1, w1)
        \<and> free_space_sweep (demo_env (\<lambda>n. NoFault) None) (demo_world 104859648) = Some (r2, w2)
        \<and> v1 \<in> set (verification_details r1) \<and> v2 \<in> set (verification_details r2)
        \<and> batch v1 = batch v2
        \<longrightarrow> expected_hash v1 = expected_hash v2)"
proof
  assume all: "\<forall>r1 w1 r2 w2 v1 v2.
        free_space_sweep (demo_env (\<lambda>n. NoFault) None) (demo_world 104858624) = Some (r1, w1)
        \<and> free_space_sweep (demo_env (\<lambda>n. NoFault) None) (demo_world 104859648) = Some (r2, w2)
        \<and> v1 \<in> set (verification_details r1) \<and> v2 \<in> set (verification_details r2)
        \<and> batch v1 = batch v2
        \<longrightarrow> expected_hash v1 = expected_hash v2"
  let ?v1 = "\<lparr>batch = 1, expected_hash = ''1024'', read1_hash = ''1024'',
            read2_hash = Some ''1024'', match = True\<rparr>"
  let ?v2 = "\<lparr>batch = 1, expected_hash = ''2048'', read1_hash = ''2048'',
            read2_hash = Some ''2048'', match = True\<rparr>"
  obtain r1 w1 where
    a: "free_space_sweep (demo_env (\<lambda>n. NoFault) None) (demo_world 104858624) = Some (r1, w1)"
    and a': "verification_details r1 = [?v1]"
    using healthy_run_1024 by blast
  obtain r2 w2 where
    b: "free_space_sweep (demo_env (\<lambda>n. NoFault) None) (demo_world 104859648) = Some (r2, w2)"
    and b': "verification_details r2 = [?v2]"
    using healthy_run_2048 by blast
  have "?v1 \<in> set (verification_details r1)" "?v2 \<in> set (verification_details r2)"
    "batch ?v1 = batch ?v2"
    using a' b' by simp_all
  then have "expected_hash ?v1 = expected_hash ?v2" using all a b by blast
  then show False by simp
qed

text \<open>
  C5, amended. The expected hash is a function of the batch index and the batch size:
  in a result of \<^verbatim>\<open>free_space_sweep\<close> or \<^verbatim>\<open>quick_check\<close> the record at position
  \<open>k\<close> has batch number \<open>k + 1\<close>, and its expected hash is the digest of the content
  that the generator seeded with \<open>k\<close> yields for the size of the \<open>k\<close>-th planned batch,
  whatever the drive, its faults and the abort callback are.
\<close>

theorem expected_hash_of_index_and_size:
  "(free_space_sweep env w = Some (r, w') \<longrightarrow>
      (\<forall>k < length (verification_details r).
         batch (verification_details r ! k) = int k + 1
         \<and> expected_hash (verification_details r ! k)
             = sha256_hex env (planned_content (randbytes env) (Random env (int k))
                 (batch_list MAX_FILE_BYTES (max 0 (disk_free w - SAFETY_MARGIN_BYTES)) ! k))))
   \<and> (quick_check env target_bytes w = Some (r, w') \<longrightarrow>
      (\<forall>k < length (verification_details r).
         batch (verification_details r ! k) = int k + 1
         \<and> expected_hash (verification_details r ! k)
             = sha256_hex env (planned_content (randbytes env) (Random env (int k))
                 (batch_list MAX_FILE_BYTES
                    (min target_bytes (max 0 (disk_free w - SAFETY_MARGIN_BYTES))) ! k))))"
proof (intro conjI impI)
  assume "free_space_sweep env w = Some (r, w')"
  then show "\<forall>k < length (verification_details r).
         batch (verification_details r ! k) = int k + 1
         \<and> expected_hash (verification_details r ! k)
             = sha256_hex env (planned_content (randbytes env) (Random env (int k))
                 (batch_list MAX_FILE_BYTES (max 0 (disk_free w - SAFETY_MARGIN_BYTES)) ! k))"
  proof (cases rule: free_space_sweep_cases)
    case small
    then show ?thesis by (simp add: failure_def)
  next
    case (nodir tp msg)
    then show ?thesis by (simp add: failure_def)
  next
    case (ran tp w1 e w2)
    from batch_loop_spec [OF ran(3)] obtain new where
      n: "records_of e = new"
      and p: "\<forall>k < length new. batch (new ! k) = 0 + int k + 1
            \<and> expected_hash (new ! k) = planned_hash env (0 + int k)
                 (batch_list MAX_FILE_BYTES (max 0 (disk_free w - SAFETY_MARGIN_BYTES)) ! k)"
      by auto
    have "verification_details r = new"
      using ran(5) n by (cases e) (auto simp: free_space_aborted_def success_def)
    then show ?thesis using p by (simp add: planned_hash_def)
  qed
next
  assume "quick_check env target_bytes w = Some (r, w')"
  then show "\<forall>k < length (verification_details r).
         batch (verification_details r ! k) = int k + 1
         \<and> expected_hash (verification_details r ! k)
             = sha256_hex env (planned_content (randbytes env) (Random env (int k))
                 (batch_list MAX_FILE_BYTES
                    (min target_bytes (max 0 (disk_free w - SAFETY_MARGIN_BYTES))) ! k))"
  proof (cases rule: quick_check_cases)
    case small
    then show ?thesis by (simp add: failure_def)
  next
    case (nodir tp msg)
    then show ?thesis by (simp add: failure_def)
  next
    case (ran tp w1 e w2)
    from batch_loop_spec [OF ran(3)] obtain new where
      n: "records_of e = new"
      and p: "\<forall>k < length new. batch (new ! k) = 0 + int k + 1
            \<and> expected_hash (new ! k) = planned_hash env (0 + int k)
                 (batch_list MAX_FILE_BYTES
                    (min target_bytes (max 0 (disk_free w - SAFETY_MARGIN_BYTES))) ! k)"
      by auto
    have "verification_details r = new"
      using ran(5) n by (cases e) (auto simp: quick_check_aborted_def success_def)
    then show ?thesis using p by (simp add: planned_hash_def)
  qed
qed

theorem expected_hash_of_index_and_size_witness:
  "\<exists>r w'. free_space_sweep (demo_env (\<lambda>n. NoFault) None) (demo_world 104858624) = Some (r, w')
     \<and> 0 < length (verification_details r)
     \<and> batch (verification_details r ! 0) = 1
     \<and> expected_hash (verification_details r ! 0)
         = sha256_hex (demo_env (\<lambda>n. NoFault) None)
             (planned_content (randbytes (demo_env (\<lambda>n. NoFault) None))
                (Random (demo_env (\<lambda>n. NoFault) None) 0)
                (batch_list MAX_FILE_BYTES
                   (max 0 (disk_free (demo_world 104858624) - SAFETY_MARGIN_BYTES)) ! 0))"
proof -
  obtain r w' where
    run: "free_space_sweep (demo_env (\<lambda>n. NoFault) None) (demo_world 104858624) = Some (r, w')"
    and vd: "length (verification_details r) = 1"
    using healthy_run_1024 by force
  have k: "0 < length (verification_details r)" using vd by simp
  show ?thesis
    using expected_hash_of_index_and_size
      [of "demo_env (\<lambda>n. NoFault) None" "demo_world 104858624" r w' 0] run k
    by (intro exI [of _ r] exI [of _ w']) simp
qed

subsection \<open>Supporting facts: content length, rounding, a drive without faults\<close>

lemma planned_content_length:
  "(\<forall>g n. length (fst (rb g n)) = n) \<Longrightarrow> length (planned_content rb rng n) = nat n"
proof (induction rb rng n rule: planned_content.induct)
  case (1 rb rng remaining)
  show ?case
  proof (cases "0 < remaining")
    case False
    then show ?thesis by (subst planned_content.simps) simp
  next
    case True
    obtain chunk rng' where c: "rb rng (nat (min WRITE_CHUNK_BYTES remaining)) = (chunk, rng')"
      by (cases "rb rng (nat (min WRITE_CHUNK_BYTES remaining))")
    have "length (fst (rb rng (nat (min WRITE_CHUNK_BYTES remaining))))
            = nat (min WRITE_CHUNK_BYTES remaining)"
      using "1.prems" by blast
    then have lc: "length chunk = nat (min WRITE_CHUNK_BYTES remaining)" using c by simp
    have ih: "length (planned_content rb rng' (remaining - min WRITE_CHUNK_BYTES remaining))
                = nat (remaining - min WRITE_CHUNK_BYTES remaining)"
      using "1.IH" [OF True c [symmetric]] "1.prems" by blast
    have "planned_content rb rng remaining
            = chunk @ planned_content rb rng' (remaining - min WRITE_CHUNK_BYTES remaining)"
      using True c by (subst planned_content.simps) simp
    moreover have "0 \<le> min WRITE_CHUNK_BYTES remaining"
      using True by (simp add: WRITE_CHUNK_BYTES_def)
    then have "nat (min WRITE_CHUNK_BYTES remaining)
                 + nat (remaining - min WRITE_CHUNK_BYTES remaining) = nat remaining"
      by linarith
    ultimately show ?thesis using lc ih by simp
  qed
qed

lemma scale_up_pow: "x < 2 ^ Suc n \<Longrightarrow> \<exists>i\<le>n. scale_up x = 2 ^ i"
proof (induction n arbitrary: x)
  case 0
  then show ?case by (subst scale_up.simps) simp
next
  case (Suc n)
  show ?case
  proof (cases "x < 2")
    case True
    then have "scale_up x = 2 ^ 0" by (subst scale_up.simps) simp
    then show ?thesis by blast
  next
    case False
    have "x / 2 < 2 ^ Suc n" using Suc.prems by simp
    from Suc.IH [OF this] obtain i where i: "i \<le> n" "scale_up (x / 2) = 2 ^ i" by blast
    have "scale_up x = 2 ^ Suc i" using False i(2) by (subst scale_up.simps) simp
    then show ?thesis using i(1) by (intro exI [of _ "Suc i"]) simp
  qed
qed

lemma scale_down_pow: "0 < x \<Longrightarrow> \<exists>i. scale_down x = 1 / 2 ^ i"
proof (induction x rule: scale_down.induct)
  case (1 x)
  show ?case
  proof (cases "x \<le> 0 \<or> 1 \<le> x")
    case True
    then have "scale_down x = 1 / 2 ^ 0" by (subst scale_down.simps) simp
    then show ?thesis by blast
  next
    case False
    then have "0 < 2 * x" using 1(2) by simp
    from 1(1) [OF False this] obtain i where i: "scale_down (2 * x) = 1 / 2 ^ i" by blast
    have "scale_down x = 1 / 2 ^ Suc i" using False i by (subst scale_down.simps) simp
    then show ?thesis by blast
  qed
qed

lemma py_round_near: "\<bar>of_int (py_round y) - y\<bar> \<le> 1 / 2"
proof -
  have "of_int \<lfloor>y\<rfloor> \<le> y" "y < of_int \<lfloor>y\<rfloor> + 1" by linarith+
  then show ?thesis by (auto simp: py_round_def Let_def)
qed

lemma py_round_of_int: "py_round (of_int n) = n"
  by (simp add: py_round_def)

lemma pow2_div: "j \<le> n \<Longrightarrow> (2::rat) ^ j / 2 ^ n = 1 / 2 ^ (n - j)"
proof -
  assume "j \<le> n"
  then have "(2::rat) ^ n = 2 ^ j * 2 ^ (n - j)" by (simp flip: power_add)
  then show ?thesis by simp
qed

lemma ulp_small:
  assumes "0 < x" "x < 128"
  obtains i :: nat where "46 \<le> i"
    "(if 1 \<le> \<bar>x\<bar> then scale_up \<bar>x\<bar> else scale_down \<bar>x\<bar>) / 2 ^ 52 = 1 / 2 ^ i"
proof (cases "1 \<le> x")
  case True
  have "x < 2 ^ Suc 6" using assms(2) by simp
  from scale_up_pow [OF this] obtain j where j: "j \<le> 6" "scale_up x = 2 ^ j" by blast
  have "scale_up x / 2 ^ 52 = 1 / 2 ^ (52 - j)"
    unfolding j(2) using j(1) by (intro pow2_div) simp
  moreover have "46 \<le> 52 - j" using j(1) by simp
  ultimately show ?thesis using that [of "52 - j"] True assms(1) by simp
next
  case False
  from scale_down_pow [OF assms(1)] obtain j where j: "scale_down x = 1 / 2 ^ j" by blast
  have "scale_down x / 2 ^ 52 = 1 / 2 ^ (j + 52)" using j by (simp add: power_add)
  then show ?thesis using that [of "j + 52"] False assms(1) by simp
qed

lemma to_double_near:
  assumes "0 < x" "x < 128"
  shows "\<bar>to_double x - x\<bar> \<le> 1 / 2 ^ 47"
proof -
  from ulp_small [OF assms] obtain i :: nat where i: "46 \<le> i"
    and u: "(if 1 \<le> \<bar>x\<bar> then scale_up \<bar>x\<bar> else scale_down \<bar>x\<bar>) / 2 ^ 52 = 1 / 2 ^ i"
    by blast
  define u :: rat where "u = 1 / 2 ^ i"
  have up: "0 < u" by (simp add: u_def)
  have td: "to_double x = of_int (py_round (x / u)) * u"
    using assms(1) u by (simp add: to_double_def Let_def u_def)
  have "to_double x - x = (of_int (py_round (x / u)) - x / u) * u"
    using up by (simp add: td left_diff_distrib)
  then have "\<bar>to_double x - x\<bar> = \<bar>of_int (py_round (x / u)) - x / u\<bar> * u"
    using up by (simp add: abs_mult)
  also have "\<dots> \<le> (1 / 2) * u"
    using py_round_near [of "x / u"] up by (intro mult_right_mono) simp_all
  also have "\<dots> \<le> (1 / 2) * (1 / 2 ^ 46)"
  proof -
    have "(2::rat) ^ 46 \<le> 2 ^ i" using i by (intro power_increasing) simp_all
    then have "u \<le> 1 / 2 ^ 46" unfolding u_def by (intro divide_left_mono) simp_all
    then show ?thesis by simp
  qed
  finally show ?thesis by simp
qed

lemma to_double_half:
  assumes "0 < j" "j < 256"
  shows "to_double (of_int j / 2) = of_int j / 2"
proof -
  let ?x = "of_int j / 2 :: rat"
  have x: "0 < ?x" "?x < 128" using assms by simp_all
  from ulp_small [OF x] obtain i :: nat where i: "46 \<le> i"
    and u: "(if 1 \<le> \<bar>?x\<bar> then scale_up \<bar>?x\<bar> else scale_down \<bar>?x\<bar>) / 2 ^ 52 = 1 / 2 ^ i"
    by blast
  have "(2::rat) ^ i = 2 * 2 ^ (i - 1)" using i by (cases i) simp_all
  then have q: "?x / (1 / 2 ^ i) = of_int (j * 2 ^ (i - 1))" by simp
  have "to_double ?x = of_int (py_round (?x / (1 / 2 ^ i))) * (1 / 2 ^ i)"
    using x(1) u by (simp add: to_double_def Let_def)
  also have "\<dots> = of_int (j * 2 ^ (i - 1)) * (1 / 2 ^ i)"
    by (simp only: q py_round_of_int)
  also have "\<dots> = ?x" using q by (metis nonzero_divide_eq_eq divide_eq_0_iff power_eq_0_iff zero_neq_numeral times_divide_eq_right mult.right_neutral)
  finally show ?thesis .
qed


lemma to_double_0: "to_double 0 = 0"
  by (simp add: to_double_def)

lemma to_double_side:
  assumes b: "0 < b" "b < 2 ^ 46" and x: "x = of_int a / of_int b" "0 \<le> x" "x < 128"
    and j: "0 \<le> j" "j < 256" and k: "k = of_int j / 2"
  shows "(x < k \<longrightarrow> to_double x < k) \<and> (k < x \<longrightarrow> k < to_double x)
     \<and> (x = k \<longrightarrow> to_double x = k)"
proof (cases "x = 0")
  case True
  then show ?thesis using j k to_double_0 by auto
next
  case False
  then have xp: "0 < x" using x(2) by simp
  have bp: "(0::rat) < of_int b" using b(1) by simp
  have "(of_int (2 * b) :: rat) < of_int (2 ^ 47)"
    using b(2) by (simp only: of_int_less_iff) simp
  then have b2: "(2 * of_int b :: rat) < 2 ^ 47" by simp
  have gap: "1 / 2 ^ 47 < 1 / (2 * of_int b :: rat)"
    using bp b2 by (intro divide_strict_left_mono) simp_all
  have near: "\<bar>to_double x - x\<bar> \<le> 1 / 2 ^ 47" using to_double_near [OF xp x(3)] .
  have xk: "x - k = of_int (2 * a - j * b) / (2 * of_int b)"
    using bp by (simp add: x(1) k field_simps)
  have lt: "to_double x < k" if "x < k"
  proof -
    have "of_int (2 * a - j * b) / (2 * of_int b :: rat) < 0" using that xk by simp
    then have "(of_int (2 * a - j * b) :: rat) < 0" using bp by (simp add: divide_less_0_iff)
    then have "2 * a - j * b < 0" by (simp only: of_int_less_0_iff)
    then have "2 * a - j * b \<le> - 1" by simp
    then have "(of_int (2 * a - j * b) :: rat) \<le> of_int (- 1)" by (simp only: of_int_le_iff)
    then have "of_int (2 * a - j * b) / (2 * of_int b :: rat) \<le> - 1 / (2 * of_int b)"
      using bp by (intro divide_right_mono) simp_all
    then have "x - k \<le> - (1 / (2 * of_int b))" using xk by simp
    then show ?thesis using near gap by linarith
  qed
  have gt: "k < to_double x" if "k < x"
  proof -
    have "0 < of_int (2 * a - j * b) / (2 * of_int b :: rat)" using that xk by simp
    then have "(0::rat) < of_int (2 * a - j * b)" using bp by (simp add: zero_less_divide_iff)
    then have "0 < 2 * a - j * b" by (simp only: of_int_0_less_iff)
    then have "1 \<le> 2 * a - j * b" by simp
    then have "(of_int 1 :: rat) \<le> of_int (2 * a - j * b)" by (simp only: of_int_le_iff)
    then have "1 / (2 * of_int b) \<le> of_int (2 * a - j * b) / (2 * of_int b :: rat)"
      using bp by (intro divide_right_mono) simp_all
    then have "1 / (2 * of_int b) \<le> x - k" using xk by simp
    then show ?thesis using near gap by linarith
  qed
  have eq: "to_double x = k" if "x = k"
  proof -
    have "0 < j" using that xp k j(1) by (cases "j = 0") simp_all
    from to_double_half [OF this j(2)] show ?thesis unfolding that k .
  qed
  show ?thesis using lt gt eq by blast
qed

lemma py_round_low: "of_int f \<le> y \<Longrightarrow> y < of_int f + 1 / 2 \<Longrightarrow> py_round y = f"
proof -
  assume a: "of_int f \<le> y" "y < of_int f + 1 / 2"
  then have "\<lfloor>y\<rfloor> = f" by (intro floor_unique) simp_all
  then show ?thesis using a by (simp add: py_round_def Let_def)
qed

lemma py_round_high: "of_int f + 1 / 2 < y \<Longrightarrow> y < of_int f + 1 \<Longrightarrow> py_round y = f + 1"
proof -
  assume a: "of_int f + 1 / 2 < y" "y < of_int f + 1"
  then have "\<lfloor>y\<rfloor> = f" by (intro floor_unique) simp_all
  then show ?thesis using a by (simp add: py_round_def Let_def)
qed

lemma py_round_to_double:
  assumes b: "0 < b" "b < 2 ^ 46" and x: "x = of_int a / of_int b" "0 \<le> x" "x \<le> 100"
  shows "py_round (to_double x) = py_round x"
proof -
  define f where "f = \<lfloor>x\<rfloor>"
  have f: "of_int f \<le> x" "x < of_int f + 1" unfolding f_def by linarith+
  have f0: "0 \<le> f" using x(2) by (simp add: f_def)
  have f1: "f \<le> 100" using x(3) by (simp add: f_def floor_le_iff)
  have x128: "x < 128" using x(3) by simp
  note side = to_double_side [OF b x(1,2) x128]
  have s0: "(x < of_int f \<longrightarrow> to_double x < of_int f) \<and> (of_int f < x \<longrightarrow> of_int f < to_double x)
     \<and> (x = of_int f \<longrightarrow> to_double x = of_int f)"
    using side [of "2 * f" "of_int f"] f0 f1 by simp
  have s1: "(x < of_int f + 1 / 2 \<longrightarrow> to_double x < of_int f + 1 / 2)
     \<and> (of_int f + 1 / 2 < x \<longrightarrow> of_int f + 1 / 2 < to_double x)
     \<and> (x = of_int f + 1 / 2 \<longrightarrow> to_double x = of_int f + 1 / 2)"
    using side [of "2 * f + 1" "of_int f + 1 / 2"] f0 f1 by (simp add: add_divide_distrib)
  have s2: "x < of_int f + 1 \<longrightarrow> to_double x < of_int f + 1"
    using side [of "2 * f + 2" "of_int f + 1"] f0 f1 by (simp add: add_divide_distrib)
  consider "x = of_int f" | "of_int f < x" "x < of_int f + 1 / 2" | "x = of_int f + 1 / 2"
    | "of_int f + 1 / 2 < x"
    using f(1) by linarith
  then show ?thesis
  proof cases
    case 1
    then show ?thesis using s0 by simp
  next
    case 2
    then have "py_round x = f" by (intro py_round_low) simp_all
    moreover have "py_round (to_double x) = f" using 2 s0 s1 by (intro py_round_low) simp_all
    ultimately show ?thesis by simp
  next
    case 3
    then show ?thesis using s1 by simp
  next
    case 4
    then have "py_round x = f + 1" using f(2) by (intro py_round_high) simp_all
    moreover have "py_round (to_double x) = f + 1"
      using 4 f(2) s1 s2 by (intro py_round_high) simp_all
    ultimately show ?thesis by simp
  qed
qed

lemma py_round_100:
  assumes "0 \<le> x" "x \<le> 100"
  shows "py_round x = 100 \<longleftrightarrow> 199 / 2 \<le> x"
proof -
  have f1: "of_int \<lfloor>x\<rfloor> \<le> x" and f2: "x < of_int \<lfloor>x\<rfloor> + 1" by linarith+
  have fle: "\<lfloor>x\<rfloor> \<le> 100" using assms(2) by (simp add: floor_le_iff)
  show ?thesis
  proof
    assume r: "py_round x = 100"
    show "199 / 2 \<le> x"
    proof (cases "\<lfloor>x\<rfloor> = 100")
      case True
      then show ?thesis using f1 by simp
    next
      case False
      then have "\<lfloor>x\<rfloor> = 99 \<and> \<not> x - of_int \<lfloor>x\<rfloor> < 1 / 2"
        using r by (auto simp: py_round_def Let_def split: if_splits)
      then show ?thesis by simp
    qed
  next
    assume h: "199 / 2 \<le> x"
    then have "99 \<le> \<lfloor>x\<rfloor>" by (simp add: le_floor_iff)
    then consider "\<lfloor>x\<rfloor> = 99" | "\<lfloor>x\<rfloor> = 100" using fle by linarith
    then show "py_round x = 100"
    proof cases
      case 1
      then show ?thesis using h by (auto simp: py_round_def Let_def)
    next
      case 2
      then have "x = 100" using f1 assms(2) by simp
      then show ?thesis by (simp add: py_round_def)
    qed
  qed
qed

lemma py_round_truediv:
  assumes "0 \<le> t" "t \<le> T" "0 < T" "T < 2 ^ 46"
  shows "py_round (py_truediv (100 * t) T) = py_round (of_int (100 * t) / of_int T)"
proof -
  let ?x = "of_int (100 * t) / of_int T :: rat"
  have T: "(0::rat) < of_int T" using assms(3) by simp
  have x0: "0 \<le> ?x" using assms by simp
  have "(of_int (100 * t) :: rat) \<le> 100 * of_int T" using assms(2) by simp
  then have x1: "?x \<le> 100" using T by (simp add: pos_divide_le_eq)
  show ?thesis
    unfolding py_truediv_def using py_round_to_double [OF assms(3,4) refl x0 x1] .
qed

lemma confidence_100_iff:
  assumes "0 \<le> t" "t \<le> T" "0 < T" "T < 2 ^ 46"
  shows "confidence_pct t T = 100 \<longleftrightarrow> 199 * T \<le> 200 * t"
proof -
  let ?x = "of_int (100 * t) / of_int T :: rat"
  have T: "(0::rat) < of_int T" using assms(3) by simp
  have x0: "0 \<le> ?x" using assms by simp
  have "(of_int (100 * t) :: rat) \<le> 100 * of_int T" using assms(2) by simp
  then have x1: "?x \<le> 100" using T by (simp add: pos_divide_le_eq)
  have "199 / 2 \<le> ?x \<longleftrightarrow> (199 / 2) * of_int T \<le> (of_int (100 * t) :: rat)"
    using T by (simp add: pos_le_divide_eq)
  also have "\<dots> \<longleftrightarrow> (of_int (199 * T) :: rat) \<le> of_int (200 * t)"
    by (simp add: field_simps)
  also have "\<dots> \<longleftrightarrow> 199 * T \<le> 200 * t" by (simp only: of_int_le_iff)
  finally have "199 / 2 \<le> ?x \<longleftrightarrow> 199 * T \<le> 200 * t" .
  moreover have "confidence_pct t T = py_round ?x"
    using assms(3) py_round_truediv [OF assms] by (simp add: confidence_pct_def)
  ultimately show ?thesis using py_round_100 [OF x0 x1] by simp
qed

text \<open>
  The bound is needed: with 70381348503799 bytes planned and 70029441761280 tested, the
  exact quotient is below 99.5 by \<open>1 / (2 * bytes_total)\<close>, the nearest double is 99.5,
  and the confidence is 100.
\<close>

lemma confidence_beyond_bound:
  "py_truediv (100 * 70029441761280) 70381348503799 = 199 / 2
   \<and> confidence_pct 70029441761280 70381348503799 = 100
   \<and> \<not> 199 * 70381348503799 \<le> (200 * 70029441761280 :: int)"
  by code_simp

lemma conf_eval: "confidence_pct 2147483648 2147484672 = 100"
  using confidence_100_iff [of 2147483648 2147484672] by simp

lemma usable_2g:
  "max 0 (disk_free (demo_world 2252342272) - SAFETY_MARGIN_BYTES) = 2147484672"
  by (simp add: demo_world_def SAFETY_MARGIN_BYTES_def)

lemma plan_2g: "plan_batches MAX_FILE_BYTES 2147484672 [] = Some [2147483648, 1024]"
  using plan_batches_MAX [of 2147484672] by (simp add: batch_list_def MAX_FILE_BYTES_def)

lemma free_space_sweep_ran:
  assumes "1024 \<le> max 0 (disk_free w - SAFETY_MARGIN_BYTES)"
    and "mkdir env (''SentinelSweep_'' @ strftime env (clock w) @ ''_'' @ token_hex env (steps w)) w
           = (None, w1)"
    and "batch_loop env ''Free-space sweep failed''
           (''SentinelSweep_'' @ strftime env (clock w) @ ''_'' @ token_hex env (steps w))
           (batch_list MAX_FILE_BYTES (max 0 (disk_free w - SAFETY_MARGIN_BYTES))) 0 [] w1 = (e, w2)"
  shows "free_space_sweep env w =
           Some (case e of
                   Returned r' \<Rightarrow> r'
                 | AbortedAt vd \<Rightarrow>
                     free_space_aborted
                       (batch_list MAX_FILE_BYTES (max 0 (disk_free w - SAFETY_MARGIN_BYTES)))
                       (max 0 (disk_free w - SAFETY_MARGIN_BYTES)) vd
                 | Finished vd \<Rightarrow>
                     success ''Free-space sweep passed''
                       (batch_list MAX_FILE_BYTES (max 0 (disk_free w - SAFETY_MARGIN_BYTES)))
                       (max 0 (disk_free w - SAFETY_MARGIN_BYTES)) vd,
                 cleanup env
                   (''SentinelSweep_'' @ strftime env (clock w) @ ''_'' @ token_hex env (steps w))
                   w2)"
proof -
  let ?u = "max 0 (disk_free w - SAFETY_MARGIN_BYTES)"
  have no: "\<not> ?u < 1024" using assms(1) by linarith
  have "0 \<le> ?u" by simp
  then have pb: "plan_batches MAX_FILE_BYTES ?u [] = Some (batch_list MAX_FILE_BYTES ?u)"
    by (rule plan_batches_MAX)
  show ?thesis
    by (simp only: free_space_sweep_def get_drive_usage_def prod.case no if_False pb
          option.case assms(2) assms(3))
qed

text \<open>A drive without faults: every call is served and every read returns what is stored.\<close>

lemma write_loop_healthy:
  "(\<forall>n. fault_at env n = NoFault) \<Longrightarrow> map_of (fs w) p = Some (Regular hasher) \<Longrightarrow>
   \<exists>h w'. write_loop env p fsize written rng hasher w = (Inr h, w')
       \<and> map_of (fs w') p = Some (Regular h) \<and> frame w w'"
proof (induction env p fsize written rng hasher w rule: write_loop.induct)
  case (1 env p fsize written rng hasher w)
  show ?case
  proof (cases "written < fsize")
    case False
    then show ?thesis using "1.prems" by (subst write_loop.simps) (simp add: frame_refl)
  next
    case True
    obtain chunk rng' where rb: "randbytes env rng (nat (min WRITE_CHUNK_BYTES (fsize - written))) = (chunk, rng')"
      by (cases "randbytes env rng (nat (min WRITE_CHUNK_BYTES (fsize - written)))")
    obtain w1 where wc: "write_chunk env p chunk w = (None, w1)"
      and st: "map_of (fs w1) p = Some (Regular (hasher @ chunk))"
      using "1.prems" by (auto simp: write_chunk_def os_call_def update_conv')
    have f1: "frame w w1" using wc by (rule frame_write_chunk)
    from "1.IH" [OF True rb [symmetric] _ _ "1.prems"(1) st] wc
    obtain h w' where
      rec: "write_loop env p fsize (written + min WRITE_CHUNK_BYTES (fsize - written)) rng'
                   (hasher @ chunk) w1 = (Inr h, w')"
      and st': "map_of (fs w') p = Some (Regular h)" and f2: "frame w1 w'"
      by auto
    have "write_loop env p fsize written rng hasher w = (Inr h, w')"
      using True rb wc rec by (subst write_loop.simps) simp
    then show ?thesis using st' f1 f2 frame_trans by blast
  qed
qed

lemma hash_file_healthy:
  assumes "\<forall>n. fault_at env n = NoFault" and "map_of (fs w) p = Some (Regular c)" and "0 < n"
  shows "\<exists>w'. hash_file_chunked env p n w = (Inr (sha256_hex env c), w')
            \<and> fs w' = fs w \<and> frame w w'"
  using assms
  by (auto simp: hash_file_chunked_def read_file_def os_call_def read_loop_all frame_def)

lemma verify_batch_healthy:
  assumes nf: "\<forall>n. fault_at env n = NoFault"
  shows "\<exists>w'. verify_batch env fm tp i fsize vd w =
           (Inr (vd @ [\<lparr>batch = i + 1, expected_hash = planned_hash env i fsize,
                        read1_hash = planned_hash env i fsize,
                        read2_hash = Some (planned_hash env i fsize), match = True\<rparr>]), w')
         \<and> frame w w'"
proof -
  let ?p = "test_file tp i"
  obtain w0 where ow: "open_wb env ?p w = (None, w0)" and s0: "map_of (fs w0) ?p = Some (Regular [])"
    using nf by (auto simp: open_wb_def os_call_def update_conv')
  have f0: "frame w w0" using ow by (rule frame_open_wb)
  from write_loop_healthy [OF nf s0, of fsize 0 "Random env i"] obtain h w1 where
    wl: "write_loop env ?p fsize 0 (Random env i) [] w0 = (Inr h, w1)"
    and s1: "map_of (fs w1) ?p = Some (Regular h)" and f1: "frame w0 w1"
    by blast
  have wb: "write_batch env ?p i fsize w = (Inr (sha256_hex env h), w1)"
    using ow wl by (simp add: write_batch_def)
  then have ex: "sha256_hex env h = planned_hash env i fsize" by (rule write_batch_hash)
  have pos: "0 < nat WRITE_CHUNK_BYTES" by (simp add: WRITE_CHUNK_BYTES_def)
  from hash_file_healthy [OF nf s1 pos] obtain w2 where
    h1: "hash_file_chunked env ?p (nat WRITE_CHUNK_BYTES) w1 = (Inr (sha256_hex env h), w2)"
    and s2: "fs w2 = fs w1" and f2: "frame w1 w2"
    by blast
  have s2': "map_of (fs w2) ?p = Some (Regular h)" using s1 s2 by simp
  from hash_file_healthy [OF nf s2' pos] obtain w3 where
    h2: "hash_file_chunked env ?p (nat WRITE_CHUNK_BYTES) w2 = (Inr (sha256_hex env h), w3)"
    and f3: "frame w2 w3"
    by blast
  have "verify_batch env fm tp i fsize vd w =
           (Inr (vd @ [\<lparr>batch = i + 1, expected_hash = planned_hash env i fsize,
                        read1_hash = planned_hash env i fsize,
                        read2_hash = Some (planned_hash env i fsize), match = True\<rparr>]), w3)"
    using wb h1 h2 ex by (simp add: verify_batch_def)
  moreover have "frame w w3" using f0 f1 f2 f3 frame_trans by blast
  ultimately show ?thesis by blast
qed

lemma batch_list_2g: "batch_list MAX_FILE_BYTES 2147484672 = [2147483648, 1024]"
  by (simp add: batch_list_def MAX_FILE_BYTES_def)

lemma aborted_run_2g:
  "\<exists>r w'. free_space_sweep (demo_env (\<lambda>n. NoFault) (Some (\<lambda>n. 0 < n))) (demo_world 2252342272)
             = Some (r, w')
        \<and> aborted r = Some \<lparr>batches_completed = 1, batches_total = 2,
             bytes_tested = 2147483648, bytes_total = 2147484672,
             extrapolated_confidence_pct = 100\<rparr>
        \<and> length (verification_details r) = 1"
proof -
  let ?E = "demo_env (\<lambda>n. NoFault) (Some (\<lambda>n. 0 < n))"
  let ?W = "demo_world 2252342272"
  let ?tp = "''SentinelSweep_'' @ strftime ?E (clock ?W) @ ''_'' @ token_hex ?E (steps ?W)"
  let ?fm = "''Free-space sweep failed''"
  let ?v = "\<lparr>batch = 0 + 1, expected_hash = planned_hash ?E 0 2147483648,
             read1_hash = planned_hash ?E 0 2147483648,
             read2_hash = Some (planned_hash ?E 0 2147483648), match = True\<rparr>"
  have nf: "\<forall>n. fault_at ?E n = NoFault" by simp
  obtain w1 where mk: "mkdir ?E ?tp ?W = (None, w1)" and p1: "polls w1 = 0"
    by (simp add: mkdir_def os_call_def path_exists_def demo_world_def)
  have pa1: "poll_abort ?E w1 = (False, w1\<lparr>polls := 1\<rparr>)"
    using p1 by (simp add: poll_abort_def)
  from verify_batch_healthy [OF nf, of ?fm ?tp 0 2147483648 "[]" "w1\<lparr>polls := 1\<rparr>"]
  obtain w3 where vb: "verify_batch ?E ?fm ?tp 0 2147483648 [] (w1\<lparr>polls := 1\<rparr>) = (Inr [?v], w3)"
    and f3: "frame (w1\<lparr>polls := 1\<rparr>) w3"
    by auto
  have p3: "polls w3 = 1" using f3 by (simp add: frame_def)
  have pa2: "poll_abort ?E w3 = (True, w3\<lparr>polls := 2\<rparr>)"
    using p3 by (simp add: poll_abort_def)
  have bl: "batch_loop ?E ?fm ?tp [2147483648, 1024] 0 [] w1 = (AbortedAt [?v], w3\<lparr>polls := 2\<rparr>)"
    using pa1 vb pa2 by simp
  have u: "max 0 (disk_free ?W - SAFETY_MARGIN_BYTES) = 2147484672"
    by (simp add: demo_world_def SAFETY_MARGIN_BYTES_def)
  have "free_space_sweep ?E ?W =
          Some (free_space_aborted [2147483648, 1024] 2147484672 [?v],
                cleanup ?E ?tp (w3\<lparr>polls := 2\<rparr>))"
    using free_space_sweep_ran [of ?W ?E w1 "AbortedAt [?v]" "w3\<lparr>polls := 2\<rparr>"] mk bl
    unfolding u batch_list_2g by simp
  moreover have "aborted (free_space_aborted [2147483648, 1024] 2147484672 [?v])
      = Some \<lparr>batches_completed = 1, batches_total = 2,
             bytes_tested = 2147483648, bytes_total = 2147484672,
             extrapolated_confidence_pct = 100\<rparr>"
    by (simp add: free_space_aborted_def tested_bytes_def conf_eval)
  moreover have
    "length (verification_details (free_space_aborted [2147483648, 1024] 2147484672 [?v])) = 1"
    by (simp add: free_space_aborted_def)
  ultimately show ?thesis by blast
qed

text \<open>
  The run above was aborted after its first batch of 2 GiB had been written and read
  back twice: the result is an aborted one with one record, the record matches and the
  result has \<^verbatim>\<open>passed\<close> true.
\<close>

theorem aborted_result_all_match_witness:
  "\<exists>r w'. free_space_sweep (demo_env (\<lambda>n. NoFault) (Some (\<lambda>n. 0 < n)))
             (demo_world 2252342272) = Some (r, w')
          \<and> aborted r \<noteq> None \<and> length (verification_details r) = 1
          \<and> passed r \<and> (\<forall>v \<in> set (verification_details r). match v)"
proof -
  obtain r w' where
    run: "free_space_sweep (demo_env (\<lambda>n. NoFault) (Some (\<lambda>n. 0 < n)))
            (demo_world 2252342272) = Some (r, w')"
    and ab: "aborted r \<noteq> None" and one: "length (verification_details r) = 1"
    using aborted_run_2g by force
  have "passed r \<and> (\<forall>v \<in> set (verification_details r). match v)"
    using aborted_result_all_match [OF disjI1 [OF run] ab] .
  then show ?thesis using run ab one by blast
qed

text \<open>
  C3. An aborted check can report 100 percent with bytes still untested: on a drive with
  2 GiB and 1024 bytes usable, an abort after the first of the two batches gives
  \<^verbatim>\<open>bytes_tested\<close> 2147483648 of \<^verbatim>\<open>bytes_total\<close> 2147484672 and
  \<^verbatim>\<open>extrapolated_confidence_pct\<close> 100.
\<close>

theorem confidence_100_before_complete:
  "map_option
     (\<lambda>(r, w'). map_option
        (\<lambda>a. (extrapolated_confidence_pct a, bytes_tested a, bytes_total a)) (aborted r))
     (free_space_sweep (demo_env (\<lambda>n. NoFault) (Some (\<lambda>n. 0 < n))) (demo_world 2252342272))
   = Some (Some (100, 2147483648, 2147484672))"
proof -
  obtain r w' where
    "free_space_sweep (demo_env (\<lambda>n. NoFault) (Some (\<lambda>n. 0 < n))) (demo_world 2252342272)
       = Some (r, w')"
    and "aborted r = Some \<lparr>batches_completed = 1, batches_total = 2,
             bytes_tested = 2147483648, bytes_total = 2147484672,
             extrapolated_confidence_pct = 100\<rparr>"
    using aborted_run_2g by blast
  then show ?thesis by simp
qed

lemma tested_bytes_take:
  "n \<le> length bs \<Longrightarrow> tested_bytes bs n = sum_list (take n bs)"
proof -
  assume n: "n \<le> length bs"
  have "map ((!) bs) [0..<n] = take n bs"
    using n by (auto simp: list_eq_iff_nth_eq)
  then show ?thesis by (simp add: tested_bytes_def)
qed

lemma sum_take_bounds:
  assumes "\<forall>b \<in> set bs. 0 \<le> (b::int)"
  shows "0 \<le> sum_list (take n bs) \<and> sum_list (take n bs) \<le> sum_list bs"
proof -
  have a: "0 \<le> sum_list (take n bs)"
    using assms by (intro sum_list_nonneg) (auto dest: in_set_takeD)
  have b: "0 \<le> sum_list (drop n bs)"
    using assms by (intro sum_list_nonneg) (auto dest: in_set_dropD)
  have "sum_list bs = sum_list (take n bs) + sum_list (drop n bs)"
    by (metis append_take_drop_id sum_list.append)
  then show ?thesis using a b by simp
qed

text \<open>
  C3, amended. In an aborted result of \<^verbatim>\<open>quick_check\<close> or \<^verbatim>\<open>free_space_sweep\<close>,
  \<^verbatim>\<open>bytes_tested\<close> is the sum of the first \<^verbatim>\<open>batches_completed\<close> planned batches and
  lies between 0 and \<^verbatim>\<open>bytes_total\<close>; the confidence is
  \<^verbatim>\<open>round(100 * bytes_tested / bytes_total)\<close>, the division being the one of doubles.
  For \<^verbatim>\<open>bytes_total\<close> below \<open>2^46\<close> bytes (64 TiB) the double rounds as the exact
  quotient does, and the confidence is 100 exactly when \<^verbatim>\<open>bytes_tested\<close> is at least
  99.5 percent of \<^verbatim>\<open>bytes_total\<close>. (From \<open>2^46\<close> on, a quotient just below 99.5 can be
  the double 99.5, which rounds to 100.)
\<close>

theorem aborted_confidence:
  assumes "free_space_sweep env w = Some (r, w') \<or> quick_check env target_bytes w = Some (r, w')"
    and "aborted r = Some a"
  shows "1024 \<le> bytes_total a
     \<and> batches_completed a \<le> batches_total a
     \<and> bytes_tested a
         = sum_list (take (batches_completed a) (batch_list MAX_FILE_BYTES (bytes_total a)))
     \<and> 0 \<le> bytes_tested a \<and> bytes_tested a \<le> bytes_total a
     \<and> extrapolated_confidence_pct a
         = py_round (py_truediv (100 * bytes_tested a) (bytes_total a))
     \<and> (bytes_total a < 2 ^ 46 \<longrightarrow>
          extrapolated_confidence_pct a
            = py_round (of_int (100 * bytes_tested a) / of_int (bytes_total a))
          \<and> (extrapolated_confidence_pct a = 100
               \<longleftrightarrow> 199 * bytes_total a \<le> 200 * bytes_tested a))"
  using assms(1)
proof (cases rule: check_run)
  case early
  then show ?thesis using assms(2) by simp
next
  case (looped fm tp bs size e w1 w2)
  from batch_loop_spec [OF looped(1)] obtain new where
    n: "records_of e = new" and len: "length new \<le> length bs"
    and ok: "ending_ok e fm (reads w2 - reads w1) (length bs) new"
    by auto
  show ?thesis
  proof (cases e)
    case (Finished vd)
    then show ?thesis using looped(6) assms(2) by (auto simp: success_def)
  next
    case (Returned r')
    then show ?thesis using looped(6) ok assms(2) by simp
  next
    case (AbortedAt vd)
    then have vd: "vd = new" using n by simp
    have a: "a = \<lparr>batches_completed = length vd, batches_total = length bs,
         bytes_tested = tested_bytes bs (length vd), bytes_total = size,
         extrapolated_confidence_pct = confidence_pct (tested_bytes bs (length vd)) size\<rparr>"
      using looped(6) AbortedAt assms(2)
      by (auto simp: free_space_aborted_def quick_check_aborted_def)
    have l: "length vd \<le> length bs" using vd len by simp
    have tb: "tested_bytes bs (length vd) = sum_list (take (length vd) bs)"
      using l by (rule tested_bytes_take)
    have pos: "\<forall>b \<in> set bs. 0 \<le> b"
      using set_batch_list [of MAX_FILE_BYTES _ size] looped(5)
      by (fastforce simp: MAX_FILE_BYTES_def)
    have sz: "sum_list bs = size"
      using looped(4,5) sum_list_batch_list [of MAX_FILE_BYTES size]
      by (simp add: MAX_FILE_BYTES_def)
    have b: "0 \<le> tested_bytes bs (length vd)" "tested_bytes bs (length vd) \<le> size"
      using sum_take_bounds [OF pos, of "length vd"] tb sz by simp_all
    have sp: "0 < size" "size \<noteq> 0" using looped(4) by simp_all
    have c: "confidence_pct (tested_bytes bs (length vd)) size = 100
               \<longleftrightarrow> 199 * size \<le> 200 * tested_bytes bs (length vd)"
      if "size < 2 ^ 46"
      using confidence_100_iff [OF b sp(1) that] .
    have d: "confidence_pct (tested_bytes bs (length vd)) size
               = py_round (py_truediv (100 * tested_bytes bs (length vd)) size)"
      using sp(2) by (simp add: confidence_pct_def)
    have e: "py_round (py_truediv (100 * tested_bytes bs (length vd)) size)
               = py_round (of_int (100 * tested_bytes bs (length vd)) / of_int size)"
      if "size < 2 ^ 46"
      using py_round_truediv [OF b sp(1) that] .
    have f: "1024 \<le> bytes_total a \<and> batches_completed a \<le> batches_total a
       \<and> bytes_tested a
           = sum_list (take (batches_completed a) (batch_list MAX_FILE_BYTES (bytes_total a)))
       \<and> 0 \<le> bytes_tested a \<and> bytes_tested a \<le> bytes_total a
       \<and> extrapolated_confidence_pct a
           = py_round (py_truediv (100 * bytes_tested a) (bytes_total a))"
      using a l tb b d looped(4,5) by simp
    have g: "extrapolated_confidence_pct a
            = py_round (of_int (100 * bytes_tested a) / of_int (bytes_total a))
          \<and> (extrapolated_confidence_pct a = 100
               \<longleftrightarrow> 199 * bytes_total a \<le> 200 * bytes_tested a)"
      if "bytes_total a < 2 ^ 46"
    proof -
      have s: "size < 2 ^ 46" using that a by simp
      show ?thesis using c [OF s] d e [OF s] unfolding a by simp
    qed
    show ?thesis using f g by blast
  qed
qed

theorem aborted_confidence_witness:
  "\<exists>r w' a. free_space_sweep (demo_env (\<lambda>n. NoFault) (Some (\<lambda>n. 0 < n)))
               (demo_world 2252342272) = Some (r, w')
     \<and> aborted r = Some a
     \<and> bytes_tested a = 2147483648 \<and> bytes_total a = 2147484672
     \<and> bytes_total a < 2 ^ 46
     \<and> extrapolated_confidence_pct a
         = py_round (py_truediv (100 * bytes_tested a) (bytes_total a))
     \<and> extrapolated_confidence_pct a
         = py_round (of_int (100 * bytes_tested a) / of_int (bytes_total a))
     \<and> (extrapolated_confidence_pct a = 100 \<longleftrightarrow> 199 * bytes_total a \<le> 200 * bytes_tested a)"
proof -
  let ?a = "\<lparr>batches_completed = 1, batches_total = 2,
             bytes_tested = 2147483648, bytes_total = 2147484672,
             extrapolated_confidence_pct = 100\<rparr>"
  obtain r w' where
    run: "free_space_sweep (demo_env (\<lambda>n. NoFault) (Some (\<lambda>n. 0 < n))) (demo_world 2252342272)
       = Some (r, w')"
    and ab: "aborted r = Some ?a"
    using aborted_run_2g by blast
  have bound: "bytes_total ?a < 2 ^ 46" by simp
  have c: "extrapolated_confidence_pct ?a
         = py_round (py_truediv (100 * bytes_tested ?a) (bytes_total ?a))"
    and d: "extrapolated_confidence_pct ?a
         = py_round (of_int (100 * bytes_tested ?a) / of_int (bytes_total ?a))"
    and e: "extrapolated_confidence_pct ?a = 100
         \<longleftrightarrow> 199 * bytes_total ?a \<le> 200 * bytes_tested ?a"
    using aborted_confidence [OF disjI1 [OF run] ab] bound by blast+
  show ?thesis
  proof (intro exI conjI)
    show "free_space_sweep (demo_env (\<lambda>n. NoFault) (Some (\<lambda>n. 0 < n)))
            (demo_world 2252342272) = Some (r, w')" by (rule run)
    show "aborted r = Some ?a" by (rule ab)
    show "bytes_tested ?a = 2147483648" by simp
    show "bytes_total ?a = 2147484672" by simp
    show "bytes_total ?a < 2 ^ 46" by (rule bound)
    show "extrapolated_confidence_pct ?a
         = py_round (py_truediv (100 * bytes_tested ?a) (bytes_total ?a))" by (rule c)
    show "extrapolated_confidence_pct ?a
         = py_round (of_int (100 * bytes_tested ?a) / of_int (bytes_total ?a))" by (rule d)
    show "extrapolated_confidence_pct ?a = 100
         \<longleftrightarrow> 199 * bytes_total ?a \<le> 200 * bytes_tested ?a" by (rule e)
  qed
qed

subsection \<open>Verifying a manifest\<close>






lemma is_absence_fs: "fs w' = fs w \<Longrightarrow> is_absence w' v = is_absence w v"
  by (simp add: is_absence_def path_exists_def)





lemmas verify_simps = verify_manifest_def poll_abort_def path_exists_def hash_file_chunked_def
  read_file_def os_call_def read_loop_all WRITE_CHUNK_BYTES_def str_nat.simps digit_char_def






subsection \<open>Building and then verifying\<close>









subsection \<open>What the phases of a sweep leave alone\<close>

lemma evolves_hash_file: "hash_file_chunked env p c w = (r, w') \<Longrightarrow> evolves w w'"
  by (rule frame_evolves) (rule frame_hash_file)

lemma evolves_verify_batch:
  "verify_batch env fm tp i fsize vd w = (out, w') \<Longrightarrow> evolves w w'"
  by (rule frame_evolves) (rule frame_verify_batch)

lemma evolves_batch_loop:
  "batch_loop env fm tp bs i vd w = (e, w') \<Longrightarrow> evolves w w'"
proof (induction bs arbitrary: i vd w)
  case Nil
  then show ?case by (simp add: evolves_refl)
next
  case (Cons fsize rest)
  obtain b w1 where pa: "poll_abort env w = (b, w1)" by (cases "poll_abort env w")
  have e1: "evolves w w1" using pa by (rule evolves_poll_abort)
  show ?case
  proof (cases b)
    case True
    then have "w' = w1" using Cons.prems pa by auto
    then show ?thesis using e1 by simp
  next
    case False
    obtain out w2 where vb: "verify_batch env fm tp i fsize vd w1 = (out, w2)"
      by (cases "verify_batch env fm tp i fsize vd w1")
    have e2: "evolves w1 w2" using vb by (rule evolves_verify_batch)
    show ?thesis
    proof (cases out)
      case (Inl r)
      then have "w' = w2" using Cons.prems pa False vb by auto
      then show ?thesis using e1 e2 evolves_trans by blast
    next
      case (Inr vd2)
      then have "batch_loop env fm tp rest (i + 1) vd2 w2 = (e, w')"
        using Cons.prems pa False vb by simp
      then have "evolves w2 w'" by (rule Cons.IH)
      then show ?thesis using e1 e2 evolves_trans by blast
    qed
  qed
qed

lemma frame_unlink_all: "unlink_all env ps w = (b, w') \<Longrightarrow> frame w w'"
proof (induction ps arbitrary: w)
  case Nil
  then show ?case by (simp add: frame_refl)
next
  case (Cons p ps)
  obtain r w1 where u: "unlink env p w = (r, w1)" by (cases "unlink env p w")
  have f1: "frame w w1" using u by (rule frame_unlink)
  show ?case
  proof (cases r)
    case None
    then have "unlink_all env ps w1 = (b, w')" using Cons.prems u by simp
    then have "frame w1 w'" by (rule Cons.IH)
    then show ?thesis using f1 frame_trans by blast
  next
    case (Some msg)
    then have "w' = w1" using Cons.prems u by simp
    then show ?thesis using f1 by simp
  qed
qed

lemma frame_cleanup: "frame w (cleanup env tp w)"
proof -
  obtain r w1 where i: "iterdir env tp w = (r, w1)" by (cases "iterdir env tp w")
  have f1: "frame w w1" using i by (rule frame_iterdir)
  show ?thesis
  proof (cases r)
    case (Inl msg)
    then show ?thesis using i f1 by (simp add: cleanup_def)
  next
    case (Inr entries)
    obtain b w2 where u: "unlink_all env entries w1 = (b, w2)"
      by (cases "unlink_all env entries w1")
    have f2: "frame w w2" using frame_unlink_all [OF u] f1 frame_trans by blast
    obtain x w3 where rd: "rmdir env tp w2 = (x, w3)" by (cases "rmdir env tp w2")
    have f3: "frame w w3" using frame_rmdir [OF rd] f2 frame_trans by blast
    show ?thesis using i Inr u rd f2 f3 by (cases b) (simp_all add: cleanup_def)
  qed
qed

lemma evolves_free_space_sweep:
  assumes "free_space_sweep env w = Some (r, w')"
  shows "evolves w w'"
  using assms
proof (cases rule: free_space_sweep_cases)
  case small
  then show ?thesis by (simp add: evolves_refl)
next
  case (nodir tp msg)
  then show ?thesis using frame_mkdir frame_evolves by blast
next
  case (ran tp w1 e w2)
  have "evolves w w1" using ran(2) frame_mkdir frame_evolves by blast
  moreover have "evolves w1 w2" using ran(3) by (rule evolves_batch_loop)
  moreover have "evolves w2 w'" using ran(4) frame_cleanup frame_evolves by blast
  ultimately show ?thesis using evolves_trans by blast
qed

lemma free_space_sweep_total: "\<exists>r w'. free_space_sweep env w = Some (r, w')"
proof (cases "max 0 (disk_free w - SAFETY_MARGIN_BYTES) < 1024")
  case True
  then show ?thesis by (simp add: free_space_sweep_def get_drive_usage_def)
next
  case False
  let ?u = "max 0 (disk_free w - SAFETY_MARGIN_BYTES)"
  let ?tp = "''SentinelSweep_'' @ strftime env (clock w) @ ''_'' @ token_hex env (steps w)"
  have pb: "plan_batches MAX_FILE_BYTES ?u [] = Some (batch_list MAX_FILE_BYTES ?u)"
    by (rule plan_batches_MAX) simp
  obtain mr w1 where mk: "mkdir env ?tp w = (mr, w1)" by (cases "mkdir env ?tp w")
  obtain e w2 where bl: "batch_loop env ''Free-space sweep failed'' ?tp
         (batch_list MAX_FILE_BYTES ?u) 0 [] w1 = (e, w2)"
    by (cases "batch_loop env ''Free-space sweep failed'' ?tp
         (batch_list MAX_FILE_BYTES ?u) 0 [] w1")
  show ?thesis
  proof (cases mr)
    case None
    have "1024 \<le> ?u" using False by linarith
    then show ?thesis using free_space_sweep_ran [of w env w1 e w2] mk None bl by simp
  next
    case (Some msg)
    have "free_space_sweep env w = Some (failure ''Free-space sweep failed''
        (''Could not create test directory: '' @ msg) [], w1)"
      by (simp only: free_space_sweep_def get_drive_usage_def prod.case False if_False pb
            option.case mk Some)
    then show ?thesis by blast
  qed
qed

lemma evolves_build_loop:
  "build_loop env ps manifest paths w = (out, w') \<Longrightarrow> evolves w w'"
proof (induction ps arbitrary: manifest paths w)
  case Nil
  then show ?case by (auto simp: evolves_refl)
next
  case (Cons p ps)
  obtain b w1 where pa: "poll_abort env w = (b, w1)" by (cases "poll_abort env w")
  have e1: "evolves w w1" using pa by (rule evolves_poll_abort)
  show ?case
  proof (cases b)
    case True
    then have "w' = w1" using Cons.prems pa by auto
    then show ?thesis using e1 by simp
  next
    case False
    obtain r w2 where h: "hash_file_chunked env p (nat WRITE_CHUNK_BYTES) w1 = (r, w2)"
      by (cases "hash_file_chunked env p (nat WRITE_CHUNK_BYTES) w1")
    have e2: "evolves w w2" using evolves_hash_file [OF h] e1 evolves_trans by blast
    show ?thesis
    proof (cases r)
      case (Inl msg)
      then have "build_loop env ps manifest paths w2 = (out, w')"
        using Cons.prems pa False h by simp
      then have "evolves w2 w'" by (rule Cons.IH)
      then show ?thesis using e2 evolves_trans by blast
    next
      case (Inr hh)
      then have "build_loop env ps (AList.update p hh manifest) (paths @ [p]) w2 = (out, w')"
        using Cons.prems pa False h by simp
      then have "evolves w2 w'" by (rule Cons.IH)
      then show ?thesis using e2 evolves_trans by blast
    qed
  qed
qed

lemma evolves_verify_loop:
  "verify_loop env entries mm vd w = (out, w') \<Longrightarrow> evolves w w'"
proof (induction entries arbitrary: mm vd w)
  case Nil
  then show ?case by (auto simp: evolves_refl)
next
  case (Cons e entries)
  obtain rel expected where e: "e = (rel, expected)" by (cases e)
  obtain b w1 where pa: "poll_abort env w = (b, w1)" by (cases "poll_abort env w")
  have e1: "evolves w w1" using pa by (rule evolves_poll_abort)
  have step: "verify_loop env ((rel, expected) # entries) mm vd w = (out, w')"
    using Cons.prems e by simp
  show ?case
  proof (cases b)
    case True
    then have "w' = w1" using step pa by auto
    then show ?thesis using e1 by simp
  next
    case False
    show ?thesis
    proof (cases "path_exists w1 rel")
      case ne: False
      then obtain mm2 vd2 where "verify_loop env entries mm2 vd2 w1 = (out, w')"
        using step pa False by simp
      then have "evolves w1 w'" by (rule Cons.IH)
      then show ?thesis using e1 evolves_trans by blast
    next
      case True
      obtain r w2 where h: "hash_file_chunked env rel (nat WRITE_CHUNK_BYTES) w1 = (r, w2)"
        by (cases "hash_file_chunked env rel (nat WRITE_CHUNK_BYTES) w1")
      have e2: "evolves w w2" using evolves_hash_file [OF h] e1 evolves_trans by blast
      have "\<exists>mm2 vd2. verify_loop env entries mm2 vd2 w2 = (out, w')"
        using step pa False True h by (cases r) auto
      then obtain mm2 vd2 where "verify_loop env entries mm2 vd2 w2 = (out, w')" by (elim exE)
      then have "evolves w2 w'" by (rule Cons.IH)
      then show ?thesis using e2 evolves_trans by blast
    qed
  qed
qed

subsection \<open>The timestamps\<close>

lemma keeps_marker_refl: "keeps_marker w w"
  by (simp add: keeps_marker_def)

lemma keeps_marker_trans: "keeps_marker w w1 \<Longrightarrow> keeps_marker w1 w2 \<Longrightarrow> keeps_marker w w2"
  by (auto simp: keeps_marker_def)

lemma evolves_keeps_marker: "evolves w w' \<Longrightarrow> keeps_marker w w'"
  by (simp add: evolves_def keeps_marker_def)

lemma keeps_marker_load_manifest:
  "load_manifest env drive_root w = (r, w') \<Longrightarrow> keeps_marker w w'"
  by (auto simp: load_manifest_def os_call_def keeps_marker_def
           split: option.splits manifest_file.splits fault.splits)

lemma keeps_marker_save_manifest:
  "save_manifest env drive_root m w = (r, w') \<Longrightarrow> keeps_marker w w'"
  by (auto simp: save_manifest_def os_call_def keeps_marker_def split: fault.splits)

lemma keeps_marker_build_manifest:
  "build_manifest env w = (out, w') \<Longrightarrow> keeps_marker w w'"
  unfolding build_manifest_def by (rule evolves_keeps_marker) (rule evolves_build_loop)

lemma keeps_marker_verify_manifest:
  "verify_manifest env m w = (out, w') \<Longrightarrow> keeps_marker w w'"
  unfolding verify_manifest_def by (rule evolves_keeps_marker) (rule evolves_verify_loop)

lemma keeps_marker_free_space_sweep:
  "free_space_sweep env w = Some (r, w') \<Longrightarrow> keeps_marker w w'"
  by (rule evolves_keeps_marker) (rule evolves_free_space_sweep)

lemma write_last_sweep_timestamp_post:
  assumes "write_last_sweep_timestamp env w = (r, w')"
  shows "config_last_sweep_time w' = config_last_sweep_time w \<and> clock w \<le> clock w'
     \<and> (case r of
           None \<Rightarrow> (case last_sweep w' of None \<Rightarrow> False | Some t \<Rightarrow> clock w \<le> t)
         | Some x \<Rightarrow> last_sweep w' = last_sweep w)"
  using assms
  by (auto simp: write_last_sweep_timestamp_def os_call_def
           split: fault.splits option.splits fnode.splits if_splits)

lemma sweep_post_unchanged:
  assumes "keeps_marker w w'" and "case out of Inl x \<Rightarrow> True | Inr r \<Rightarrow> \<not> (sw_passed r \<and> \<not> sw_aborted r)"
  shows "sweep_post t0 w out w'"
  using assms by (cases out) (auto simp: sweep_post_def keeps_marker_def)

lemma free_space_phase_post:
  assumes run: "free_space_phase env parts result w = Some (out, w')"
    and res: "sw_passed result" "\<not> sw_aborted result" "manifest_passed result"
  shows "sweep_post (clock w) w out w'"
proof -
  obtain fs_result w1 where fs: "free_space_sweep env w = Some (fs_result, w1)"
    using free_space_sweep_total by blast
  have k1: "keeps_marker w w1" using fs by (rule keeps_marker_free_space_sweep)
  show ?thesis
  proof (cases "aborted fs_result \<noteq> None")
    case True
    then have "w' = w1" "case out of Inl x \<Rightarrow> True | Inr r \<Rightarrow> \<not> (sw_passed r \<and> \<not> sw_aborted r)"
      using run fs by (auto simp: free_space_phase_def)
    then show ?thesis using k1 sweep_post_unchanged by blast
  next
    case na: False
    show ?thesis
    proof (cases "passed fs_result")
      case False
      then have "w' = w1" "case out of Inl x \<Rightarrow> True | Inr r \<Rightarrow> \<not> (sw_passed r \<and> \<not> sw_aborted r)"
        using run fs na by (auto simp: free_space_phase_def)
      then show ?thesis using k1 sweep_post_unchanged by blast
    next
      case True
      obtain x w2 where wr: "write_last_sweep_timestamp env w1 = (x, w2)"
        by (cases "write_last_sweep_timestamp env w1")
      from write_last_sweep_timestamp_post [OF wr] have
        p: "config_last_sweep_time w2 = config_last_sweep_time w1" "clock w1 \<le> clock w2"
          "case x of
             None \<Rightarrow> (case last_sweep w2 of None \<Rightarrow> False | Some t \<Rightarrow> clock w1 \<le> t)
           | Some x \<Rightarrow> last_sweep w2 = last_sweep w1"
        by blast+
      show ?thesis
      proof (cases x)
        case (Some err)
        then have "out = Inl err" "w' = w2" using run fs na True wr
          by (auto simp: free_space_phase_def)
        then show ?thesis using p Some k1 by (simp add: sweep_post_def keeps_marker_def)
      next
        case None
        then have o: "out = Inr (result\<lparr>free_space_passed := passed fs_result,
                               vd_free_space := verification_details fs_result,
                               sw_details := join newline (parts @ [details fs_result])\<rparr>)"
          "w' = w2"
          using run fs na True wr by (auto simp: free_space_phase_def)
        have "case last_sweep w2 of None \<Rightarrow> False | Some t \<Rightarrow> clock w \<le> t"
          using p(3) None k1 by (auto simp: keeps_marker_def split: option.splits)
        then show ?thesis using o p(1) k1 res True
          by (simp add: sweep_post_def keeps_marker_def)
      qed
    qed
  qed
qed

lemma sweep_post_later:
  assumes "keeps_marker w w1" and "sweep_post (clock w1) w1 out w'"
  shows "sweep_post (clock w) w out w'"
  using assms
  by (cases out) (auto simp: sweep_post_def keeps_marker_def split: option.splits if_splits)

lemma full_sweep_post:
  assumes run: "full_sweep env drive_root w = Some (out, w')"
  shows "sweep_post (clock w) w out w'"
proof -
  obtain lr w1 where lm: "load_manifest env drive_root w = (lr, w1)"
    by (cases "load_manifest env drive_root w")
  have k1: "keeps_marker w w1" using lm by (rule keeps_marker_load_manifest)
  show ?thesis
  proof (cases lr)
    case (Inl x)
    then have "out = Inl x" "w' = w1" using run lm by (auto simp: full_sweep_def)
    then show ?thesis using k1 sweep_post_unchanged [of w w' out] by simp
  next
    case (Inr loaded)
    show ?thesis
    proof (cases loaded)
      case None
      obtain m paths build_aborted w2 where
        bm: "build_manifest env w1 = ((m, paths, build_aborted), w2)"
        by (metis surj_pair)
      have k2: "keeps_marker w w2"
        using keeps_marker_build_manifest [OF bm] k1 keeps_marker_trans by blast
      show ?thesis
      proof (cases build_aborted)
        case True
        then have "w' = w2"
          "case out of Inl x \<Rightarrow> True | Inr r \<Rightarrow> \<not> (sw_passed r \<and> \<not> sw_aborted r)"
          using run lm Inr None bm by (auto simp: full_sweep_def)
        then show ?thesis using k2 sweep_post_unchanged by blast
      next
        case False
        obtain sr w3 where sm: "save_manifest env drive_root m w2 = (sr, w3)"
          by (cases "save_manifest env drive_root m w2")
        have k3: "keeps_marker w w3"
          using keeps_marker_save_manifest [OF sm] k2 keeps_marker_trans by blast
        show ?thesis
        proof (cases sr)
          case (Some x)
          then have "out = Inl x" "w' = w3"
            using run lm Inr None bm False sm by (auto simp: full_sweep_def)
          then show ?thesis using k3 sweep_post_unchanged [of w w' out] by simp
        next
          case sn: None
          have "free_space_phase env [''Manifest built (new card).''] initial_result w3
                  = Some (out, w')"
            using run lm Inr None bm False sm sn by (simp add: full_sweep_def)
          then have "sweep_post (clock w3) w3 out w'"
            by (rule free_space_phase_post) (simp_all add: initial_result_def)
          then show ?thesis using k3 sweep_post_later by blast
        qed
      qed
    next
      case (Some l)
      show ?thesis
      proof (cases l)
        case NonDict
        then have "out = Inl AttributeError" "w' = w1"
          using run lm Inr Some by (auto simp: full_sweep_def)
        then show ?thesis using k1 sweep_post_unchanged [of w w' out] by simp
      next
        case (Dict manifest)
        obtain ok mismatches manifest_vd verify_aborted w2 where
          vm: "verify_manifest env manifest w1
                 = ((ok, mismatches, manifest_vd, verify_aborted), w2)"
          by (metis surj_pair)
        have k2: "keeps_marker w w2"
          using keeps_marker_verify_manifest [OF vm] k1 keeps_marker_trans by blast
        show ?thesis
        proof (cases "verify_aborted \<or> \<not> ok")
          case True
          then have "w' = w2"
            "case out of Inl x \<Rightarrow> True | Inr r \<Rightarrow> \<not> (sw_passed r \<and> \<not> sw_aborted r)"
            using run lm Inr Some Dict vm by (auto simp: full_sweep_def split: if_splits)
          then show ?thesis using k2 sweep_post_unchanged by blast
        next
          case False
          then have fp: "free_space_phase env [''File verification passed.'']
                   (initial_result\<lparr>manifest_passed := ok, vd_manifest := manifest_vd\<rparr>) w2
                  = Some (out, w')"
            using run lm Inr Some Dict vm by (simp add: full_sweep_def)
          have "sweep_post (clock w2) w2 out w'"
            using False by (intro free_space_phase_post [OF fp]) (simp_all add: initial_result_def)
          then show ?thesis using k2 sweep_post_later by blast
        qed
      qed
    qed
  qed
qed

subsection \<open>The full sweep\<close>

lemma free_space_phase_total:
  "\<exists>out w'. free_space_phase env parts result w = Some (out, w')"
proof -
  obtain fs_result w1 where fs: "free_space_sweep env w = Some (fs_result, w1)"
    using free_space_sweep_total by blast
  obtain x w2 where wr: "write_last_sweep_timestamp env w1 = (x, w2)"
    by (cases "write_last_sweep_timestamp env w1")
  show ?thesis using fs wr by (cases x) (auto simp: free_space_phase_def)
qed

lemma full_sweep_total: "\<exists>out w'. full_sweep env drive_root w = Some (out, w')"
  using free_space_phase_total
  by (auto simp: full_sweep_def split: prod.splits sum.splits option.splits loaded.splits)

lemma manifest_key_G: "manifest_key drive_G = ''G''"
  by (simp add: manifest_key_def drive_G_def upper_char_def)

lemmas sweep_simps = full_sweep_def load_manifest_def build_manifest_def all_files_def
  is_file_def SENTINEL_DIR_def save_manifest_def free_space_phase_def
  write_last_sweep_timestamp_def initial_result_def manifest_key_G

lemma full_run_demo:
  "\<exists>r w'. full_sweep (demo_env (\<lambda>n. NoFault) None) drive_G (demo_world 104858624)
             = Some (Inr r, w')
     \<and> sw_passed r \<and> \<not> sw_aborted r \<and> manifest_passed r \<and> free_space_passed r
     \<and> last_sweep w' = Some 1011 \<and> config_last_sweep_time w' = None
     \<and> map_of (manifests w') ''G'' = Some (JsonDict [(''photo.jpg'', ''3'')])"
  apply (simp add: sweep_simps verify_simps demo_world_def)
  apply (simp add: free_space_sweep_def get_drive_usage_def SAFETY_MARGIN_BYTES_def plan_1024
      run_simps success_def)
  apply (simp add: write_last_sweep_timestamp_def os_call_def SENTINEL_DIR_def)
  done

lemma on_full_sweep_done_any_result:
  "config_last_sweep_time (on_full_sweep_done result w) = Some (clock w)
   \<and> last_sweep (on_full_sweep_done result w) = last_sweep w"
  by (simp add: on_full_sweep_done_def)

text \<open>
  C1. The host configuration documents \<^verbatim>\<open>last_sweep_time\<close> as the fallback of the
  drive-resident timestamp (\<^verbatim>\<open>load_config\<close> in \<^verbatim>\<open>config.py\<close>, \<^verbatim>\<open>get_last_sweep_time\<close> in
  \<^verbatim>\<open>api.py\<close>), and the window shows it as the last full sweep when the drive holds no
  timestamp. \<^verbatim>\<open>full_sweep\<close> writes the drive-resident timestamp only on success, but the
  only writer of the host-resident one, \<^verbatim>\<open>_on_full_sweep_done\<close>, runs after every sweep.
  After a sweep aborted while the manifest is built, and after a sweep whose free-space
  phase fails on a drive that garbles every read, the drive holds no timestamp, the
  host held none, and the window has saved the time of the end of the sweep on the host.
\<close>

theorem unsuccessful_sweep_sets_host_timestamp:
  "map_option
     (\<lambda>(out, w'). case out of Inl x \<Rightarrow> None
        | Inr r \<Rightarrow> Some (sw_aborted r, last_sweep w', config_last_sweep_time w',
                        config_last_sweep_time (on_full_sweep_done r w')))
     (full_sweep (demo_env (\<lambda>n. NoFault) (Some (\<lambda>n. True))) drive_G (demo_world 104858624))
   = Some (Some (True, None, None, Some 1000))
   \<and> map_option
     (\<lambda>(out, w'). case out of Inl x \<Rightarrow> None
        | Inr r \<Rightarrow> Some (sw_passed r, sw_aborted r, last_sweep w', config_last_sweep_time w',
                        config_last_sweep_time (on_full_sweep_done r w')))
     (full_sweep (demo_env (\<lambda>n. Garbled [9]) None) drive_G (demo_world 104858624))
   = Some (Some (False, False, None, None, Some 1009))"
proof (intro conjI)
  show "map_option
     (\<lambda>(out, w'). case out of Inl x \<Rightarrow> None
        | Inr r \<Rightarrow> Some (sw_aborted r, last_sweep w', config_last_sweep_time w',
                        config_last_sweep_time (on_full_sweep_done r w')))
     (full_sweep (demo_env (\<lambda>n. NoFault) (Some (\<lambda>n. True))) drive_G (demo_world 104858624))
   = Some (Some (True, None, None, Some 1000))"
    by (simp add: sweep_simps verify_simps demo_world_def on_full_sweep_done_def
        startswith_def)
  show "map_option
     (\<lambda>(out, w'). case out of Inl x \<Rightarrow> None
        | Inr r \<Rightarrow> Some (sw_passed r, sw_aborted r, last_sweep w', config_last_sweep_time w',
                        config_last_sweep_time (on_full_sweep_done r w')))
     (full_sweep (demo_env (\<lambda>n. Garbled [9]) None) drive_G (demo_world 104858624))
   = Some (Some (False, False, None, None, Some 1009))"
    apply (simp add: sweep_simps verify_simps demo_world_def)
    apply (simp add: free_space_sweep_def get_drive_usage_def SAFETY_MARGIN_BYTES_def plan_1024
        run_simps success_def failure_def)
    apply (simp add: write_last_sweep_timestamp_def os_call_def SENTINEL_DIR_def
        on_full_sweep_done_def)
    done
qed

text \<open>
  The drive-resident half of C1 holds. Every run of \<^verbatim>\<open>full_sweep\<close> returns or raises,
  and it writes the drive-resident timestamp if and only if it returns a result with
  \<^verbatim>\<open>passed\<close> true and not aborted; then both phases have passed and the time written is
  not before the start of the sweep. A sweep that is aborted, fails or raises leaves
  the drive-resident timestamp as it was. \<^verbatim>\<open>full_sweep\<close> does not touch the host
  configuration: a sweep run without the window (\<^verbatim>\<open>api.py\<close>, the command line) leaves
  \<^verbatim>\<open>last_sweep_time\<close> as it was also when it passes.
\<close>

lemma full_sweep_drive_timestamp:
  "\<exists>out w'. full_sweep env drive_root w = Some (out, w')
     \<and> config_last_sweep_time w' = config_last_sweep_time w
     \<and> (case out of
           Inl x \<Rightarrow> last_sweep w' = last_sweep w
         | Inr r \<Rightarrow>
             if sw_passed r \<and> \<not> sw_aborted r
             then manifest_passed r \<and> free_space_passed r
                  \<and> (case last_sweep w' of None \<Rightarrow> False | Some t \<Rightarrow> clock w \<le> t)
             else last_sweep w' = last_sweep w)"
proof -
  obtain out w' where run: "full_sweep env drive_root w = Some (out, w')"
    using full_sweep_total by blast
  have "sweep_post (clock w) w out w'" using run by (rule full_sweep_post)
  then show ?thesis using run unfolding sweep_post_def by (intro exI [of _ out] exI [of _ w']) simp
qed

text \<open>
  C8. A manifest file that is not valid UTF-8 (for example the single byte 0xFF): reading
  it raises \<^verbatim>\<open>UnicodeDecodeError\<close>, which \<^verbatim>\<open>load_manifest\<close> does not catch, and the
  error leaves \<^verbatim>\<open>full_sweep\<close> before any phase has run.
\<close>

theorem corrupt_manifest_raises:
  "fst (load_manifest (demo_env (\<lambda>n. NoFault) None) drive_G corrupt_world)
     = Inl UnicodeDecodeError
   \<and> map_option (\<lambda>(out, w'). (out, trace w', manifests w'))
       (full_sweep (demo_env (\<lambda>n. NoFault) None) drive_G corrupt_world)
     = Some (Inl UnicodeDecodeError, [EvLoadManifest ''G''], [(''G'', NotUtf8)])"
  by (simp add: full_sweep_def load_manifest_def manifest_key_G corrupt_world_def os_call_def)

text \<open>
  The rest of C8 holds: the store is keyed by \<open>manifest_key\<close> of the drive root; a file
  that is absent, that cannot be opened or that is not JSON loads as no manifest; and
  a sweep that finds no manifest builds one and, unless the build is aborted or the
  save raises, stores it under that key.
\<close>

lemma load_manifest_none:
  assumes "map_of (manifests w) (manifest_key drive_root) \<in> {None, Some NoFile, Some NotJson}
           \<or> (\<exists>e. fault_at env (steps w) = Fails e)"
  shows "fst (load_manifest env drive_root w) = Inr None"
  using assms
  by (auto simp: load_manifest_def os_call_def split: option.splits manifest_file.splits
        fault.splits)

lemma full_sweep_builds:
  assumes "load_manifest env drive_root w = (Inr None, w1)"
    and "build_manifest env w1 = ((m, paths, False), w2)"
    and "save_manifest env drive_root m w2 = (None, w3)"
    and "full_sweep env drive_root w = Some (out, w')"
  shows "map_of (manifests w3) (manifest_key drive_root) = Some (JsonDict m)
     \<and> free_space_phase env [''Manifest built (new card).''] initial_result w3 = Some (out, w')"
proof -
  have "map_of (manifests w3) (manifest_key drive_root) = Some (JsonDict m)"
    using assms(3)
    by (auto simp: save_manifest_def os_call_def update_conv' split: fault.splits)
  then show ?thesis using assms by (simp add: full_sweep_def)
qed

end
